theory Spec2Isabelle
  imports Complex_Main "HOL-Library.Multiset"
begin

section \<open>Data model of \<^verbatim>\<open>backend/server.py\<close>\<close>

text \<open>
  Python strings are modelled as HOL strings. A \<^typ>\<open>char\<close> stands for the code point
  of the same number, so the model covers texts whose code points are below 256
  (ASCII and the Latin-1 supplement, which holds the accented letters of the
  patterns and of the placeholders). Python integers are \<^typ>\<open>int\<close>; counts and
  offsets that the code obtains from \<^verbatim>\<open>len\<close> or from a regex match are \<^typ>\<open>nat\<close>.
\<close>

datatype error = ValueError | IndexError

datatype ProcessingMode = STANDARD | ADVANCED | OLLAMA

datatype EntityType = PHONE | EMAIL | SIRET | SSN | ADDRESS | LEGAL | PERSON | ORGANIZATION

datatype EntitySource = REGEX | NER | OLLAMA_SOURCE | MANUAL

record Position =
  start :: int
  end_pos :: int

record Entity =
  ident :: string
  etext :: string
  etype :: EntityType
  source :: EntitySource
  confidence :: real
  replacement :: string
  positions :: "Position list"
  selected :: bool

section \<open>Checksum validator: \<^verbatim>\<open>RegexService.luhn_check\<close>\<close>

definition ord :: "char \<Rightarrow> nat" where
  "ord c = of_char c"

text \<open>\<^verbatim>\<open>int(d)\<close> on a one-character string: the value of a decimal digit, and
  \<^verbatim>\<open>ValueError\<close> on every other character.\<close>

definition is_decimal :: "char \<Rightarrow> bool" where
  "is_decimal c = (48 \<le> ord c \<and> ord c \<le> 57)"

definition int_of_char :: "char \<Rightarrow> error + nat" where
  "int_of_char c = (if is_decimal c then Inr (ord c - 48) else Inl ValueError)"

text \<open>\<^verbatim>\<open>digits_of(n) = [int(d) for d in str(n)]\<close>, once on the string argument and
  once on the non-negative integer \<^verbatim>\<open>d*2\<close>.\<close>

fun digits_of_str :: "string \<Rightarrow> error + nat list" where
  "digits_of_str [] = Inr []"
| "digits_of_str (c # cs) =
     (case int_of_char c of
        Inl e \<Rightarrow> Inl e
      | Inr d \<Rightarrow> (case digits_of_str cs of Inl e \<Rightarrow> Inl e | Inr ds \<Rightarrow> Inr (d # ds)))"

fun digits_of_nat :: "nat \<Rightarrow> nat list" where
  "digits_of_nat n = (if n < 10 then [n] else digits_of_nat (n div 10) @ [n mod 10])"

declare digits_of_nat.simps [simp del]

text \<open>The extended slices \<^verbatim>\<open>digits[-1::-2]\<close> and \<^verbatim>\<open>digits[-2::-2]\<close>: every second
  element of the reversed list, starting at its first and at its second element.\<close>

fun every_second :: "'a list \<Rightarrow> 'a list" where
  "every_second [] = []"
| "every_second [x] = [x]"
| "every_second (x # y # xs) = x # every_second xs"

definition luhn_checksum :: "nat list \<Rightarrow> nat" where
  "luhn_checksum digits =
     (let odd_digits = every_second (rev digits);
          even_digits = every_second (drop 1 (rev digits));
          checksum = sum_list odd_digits
      in fold (\<lambda>d checksum. checksum + sum_list (digits_of_nat (d * 2))) even_digits checksum
           mod 10)"

definition luhn_check :: "string \<Rightarrow> error + bool" where
  "luhn_check number =
     (case digits_of_str number of
        Inl e \<Rightarrow> Inl e
      | Inr digits \<Rightarrow> Inr (luhn_checksum digits = 0))"

text \<open>The checksum as the specification words it: positions are counted from the
  rightmost digit, starting at 1; a digit at an odd position counts as it is, a digit
  at an even position is doubled, and the digits of the doubled value are summed when
  it exceeds 9.\<close>

definition doubled :: "nat \<Rightarrow> nat" where
  "doubled d = (if 2 * d > 9 then (2 * d) div 10 + (2 * d) mod 10 else 2 * d)"

definition luhn_total_spec :: "string \<Rightarrow> nat" where
  "luhn_total_spec number =
     sum_list (map (\<lambda>k. let d = ord (rev number ! (k - 1)) - 48
                         in if odd k then d else doubled d)
                   [1..<Suc (length number)])"

section \<open>Anonymization rewriter: \<^verbatim>\<open>DocumentProcessor.apply_anonymization\<close>\<close>

text \<open>The slices \<^verbatim>\<open>s[:i]\<close> and \<^verbatim>\<open>s[i:]\<close> of Python: a negative index counts from the
  end, and an index beyond either end of the string is clipped.\<close>

definition py_slice_to :: "'a list \<Rightarrow> int \<Rightarrow> 'a list" where
  "py_slice_to s i = (if i < 0 then take (nat (int (length s) + i)) s else take (nat i) s)"

definition py_slice_from :: "'a list \<Rightarrow> int \<Rightarrow> 'a list" where
  "py_slice_from s i = (if i < 0 then drop (nat (int (length s) + i)) s else drop (nat i) s)"

text \<open>The body of the loop: \<^verbatim>\<open>result[:pos.start] + entity.replacement + result[pos.end:]\<close>
  with \<^verbatim>\<open>pos = entity.positions[0]\<close>. It is only run on entities whose list of positions
  is not empty (see \<open>apply_anonymization\<close>).\<close>

definition splice :: "string \<Rightarrow> Entity \<Rightarrow> string" where
  "splice result entity =
     (let pos = hd (positions entity)
      in py_slice_to result (start pos) @ replacement entity @ py_slice_from result (end_pos pos))"

text \<open>\<^verbatim>\<open>sorted(..., key=..., reverse=True)\<close> is a stable sort that keeps the original order
  of entities with equal keys: the stable insertion sort \<^const>\<open>sort_key\<close> on the negated
  key. The key function reads \<^verbatim>\<open>x.positions[0]\<close> of every selected entity before the loop
  starts, so an empty list of positions raises \<^verbatim>\<open>IndexError\<close>.\<close>

definition apply_anonymization :: "string \<Rightarrow> Entity list \<Rightarrow> error + string" where
  "apply_anonymization content entities =
     (let sel = filter selected entities
      in if list_ex (\<lambda>e. positions e = []) sel then Inl IndexError
         else let sorted_entities = sort_key (\<lambda>x. - start (hd (positions x))) sel
              in Inr (fold (\<lambda>entity result. splice result entity) sorted_entities content))"

subsection \<open>What the specification asks of the rewriter\<close>

text \<open>The first positions of the selected entities lie within the text
  (\<open>0 \<le> start < end \<le> len(text)\<close>, the invariant of a position) and do not overlap
  pairwise.\<close>

definition disjoint_spans :: "Position \<Rightarrow> Position \<Rightarrow> bool" where
  "disjoint_spans p q = (end_pos p \<le> start q \<or> end_pos q \<le> start p)"

fun non_overlapping :: "Position list \<Rightarrow> bool" where
  "non_overlapping [] = True"
| "non_overlapping (p # ps) = (list_all (disjoint_spans p) ps \<and> non_overlapping ps)"

definition within_text :: "string \<Rightarrow> Position \<Rightarrow> bool" where
  "within_text content p = (0 \<le> start p \<and> start p < end_pos p \<and> end_pos p \<le> int (length content))"

definition first_positions :: "Entity list \<Rightarrow> Position list" where
  "first_positions es = map (\<lambda>e. hd (positions e)) es"

definition valid_selection :: "string \<Rightarrow> Entity list \<Rightarrow> bool" where
  "valid_selection content entities =
     (let sel = filter selected entities
      in list_all (\<lambda>e. positions e \<noteq> []) sel
         \<and> list_all (within_text content) (first_positions sel)
         \<and> non_overlapping (first_positions sel))"

text \<open>The expected text, built in one pass from left to right over the original: the
  characters up to the next selected span are copied, the span is skipped, and its
  replacement is written in its place.\<close>

fun replace_spans :: "string \<Rightarrow> nat \<Rightarrow> Entity list \<Rightarrow> string" where
  "replace_spans content cursor [] = drop cursor content"
| "replace_spans content cursor (e # es) =
     (let p = hd (positions e)
      in take (nat (start p) - cursor) (drop cursor content)
         @ replacement e
         @ replace_spans content (nat (end_pos p)) es)"

definition rewrite_spec :: "string \<Rightarrow> Entity list \<Rightarrow> string" where
  "rewrite_spec content entities =
     replace_spans content 0 (sort_key (\<lambda>e. start (hd (positions e))) (filter selected entities))"

definition span_length :: "Entity \<Rightarrow> int" where
  "span_length e = end_pos (hd (positions e)) - start (hd (positions e))"

text \<open>Where a character of the original ends up: every span of the list that ends at
  or before offset \<open>i\<close> moves it by the difference of the lengths of the replacement
  and of the span.\<close>

definition shift :: "Entity list \<Rightarrow> int \<Rightarrow> int" where
  "shift es i =
     (\<Sum>e\<leftarrow>filter (\<lambda>e. end_pos (hd (positions e)) \<le> i) es.
        int (length (replacement e)) - span_length e)"

definition in_span :: "Entity list \<Rightarrow> int \<Rightarrow> bool" where
  "in_span es i =
     list_ex (\<lambda>e. start (hd (positions e)) \<le> i \<and> i < end_pos (hd (positions e))) es"

section \<open>Entity deduplicator: the loop of \<^verbatim>\<open>process_document\<close>\<close>

type_synonym dedup_key = "string \<times> int \<times> int"

text \<open>\<^verbatim>\<open>key = (entity.text, entity.positions[0].start, entity.positions[0].end)\<close>, which
  raises \<^verbatim>\<open>IndexError\<close> on an entity without positions.\<close>

definition dedup_key :: "Entity \<Rightarrow> error + dedup_key" where
  "dedup_key entity =
     (case positions entity of
        [] \<Rightarrow> Inl IndexError
      | p # _ \<Rightarrow> Inr (etext entity, start p, end_pos p))"

fun dedup_loop :: "Entity list \<Rightarrow> Entity list \<Rightarrow> dedup_key set \<Rightarrow> error + Entity list" where
  "dedup_loop [] unique_entities seen = Inr unique_entities"
| "dedup_loop (entity # rest) unique_entities seen =
     (case dedup_key entity of
        Inl err \<Rightarrow> Inl err
      | Inr key \<Rightarrow>
          if key \<notin> seen then dedup_loop rest (unique_entities @ [entity]) (insert key seen)
          else dedup_loop rest unique_entities seen)"

definition deduplicate :: "Entity list \<Rightarrow> error + Entity list" where
  "deduplicate all_entities = dedup_loop all_entities [] {}"

text \<open>The key of an entity that has a first position, and the specification's reading
  of the loop: an entity survives when no entity before it in the list has its key.\<close>

definition key_of :: "Entity \<Rightarrow> dedup_key" where
  "key_of e = (etext e, start (hd (positions e)), end_pos (hd (positions e)))"

definition first_occurrences :: "Entity list \<Rightarrow> Entity list" where
  "first_occurrences es =
     map (\<lambda>i. es ! i) (filter (\<lambda>i. \<forall>j<i. key_of (es ! j) \<noteq> key_of (es ! i)) [0..<length es])"

text \<open>Used in the proofs about the rewriter: the first spans of a list of entities
  follow each other from left to right after a cursor, none is empty, and the last
  one ends within a text of \<open>n\<close> characters.\<close>

fun laid_out :: "nat \<Rightarrow> nat \<Rightarrow> Entity list \<Rightarrow> bool" where
  "laid_out n cursor [] = (cursor \<le> n)"
| "laid_out n cursor (e # es) =
     (positions e \<noteq> []
      \<and> int cursor \<le> start (hd (positions e))
      \<and> start (hd (positions e)) < end_pos (hd (positions e))
      \<and> laid_out n (nat (end_pos (hd (positions e)))) es)"

text \<open>Used in the proofs about the loop: what the loop appends to
  \<open>unique_entities\<close> when it starts with the keys \<open>seen\<close>.\<close>

fun keep_unseen :: "dedup_key set \<Rightarrow> Entity list \<Rightarrow> Entity list" where
  "keep_unseen seen [] = []"
| "keep_unseen seen (e # es) =
     (if key_of e \<in> seen then keep_unseen seen es
      else e # keep_unseen (insert (key_of e) seen) es)"

section \<open>The regular expressions of \<^verbatim>\<open>RegexService\<close>\<close>

text \<open>
  The patterns are matched by Python's \<^verbatim>\<open>re\<close> module, a backtracking matcher. Its
  behaviour on the constructs that the ten patterns use is modelled here: literals,
  character sets, \<^verbatim>\<open>\d\<close>, \<^verbatim>\<open>\s\<close>, \<^verbatim>\<open>\b\<close>, sequence, alternation, the greedy
  quantifiers \<^verbatim>\<open>?\<close>, \<^verbatim>\<open>{n}\<close>, and \<^verbatim>\<open>+\<close>, \<^verbatim>\<open>*\<close>, \<^verbatim>\<open>{n,}\<close> on a single-character
  matcher, and the flag \<^verbatim>\<open>re.IGNORECASE\<close>. The character classes are those of Python 3
  on \<^verbatim>\<open>str\<close> patterns, for the code points below 256.
\<close>

text \<open>\<^verbatim>\<open>\s\<close>: the characters for which \<^verbatim>\<open>str.isspace\<close> holds.\<close>

definition is_space :: "char \<Rightarrow> bool" where
  "is_space c = (let n = ord c in (9 \<le> n \<and> n \<le> 13) \<or> (28 \<le> n \<and> n \<le> 32) \<or> n = 133 \<or> n = 160)"

text \<open>\<^verbatim>\<open>\w\<close>: the alphanumeric characters (letters, and the characters that are decimal,
  digit or numeric) and the underscore.\<close>

definition is_alnum :: "char \<Rightarrow> bool" where
  "is_alnum c =
     (let n = ord c
      in (48 \<le> n \<and> n \<le> 57) \<or> (65 \<le> n \<and> n \<le> 90) \<or> (97 \<le> n \<and> n \<le> 122)
         \<or> n = 170 \<or> n = 178 \<or> n = 179 \<or> n = 181 \<or> n = 185 \<or> n = 186
         \<or> (188 \<le> n \<and> n \<le> 190) \<or> (192 \<le> n \<and> n \<le> 214) \<or> (216 \<le> n \<and> n \<le> 246)
         \<or> 248 \<le> n)"

definition is_word :: "char \<Rightarrow> bool" where
  "is_word c = (is_alnum c \<or> c = CHR ''_'')"

text \<open>The lowercase form that \<^verbatim>\<open>re.IGNORECASE\<close> compares.\<close>

definition lower :: "char \<Rightarrow> char" where
  "lower c =
     (let n = ord c
      in if (65 \<le> n \<and> n \<le> 90) \<or> (192 \<le> n \<and> n \<le> 222 \<and> n \<noteq> 215) then char_of (n + 32)
         else c)"

datatype cset_item = Ch char | Rng char char | ClsDigit | ClsSpace

datatype atom = Lit char | Set "cset_item list" | Digit | Space

datatype regex =
    Eps
  | Atom atom
  | WordB
  | Seq regex regex
  | Alt regex regex
  | Opt regex
  | Times nat regex
  | AtLeast nat atom

fun Cat :: "regex list \<Rightarrow> regex" where
  "Cat [] = Eps"
| "Cat [r] = r"
| "Cat (r # rs) = Seq r (Cat rs)"

fun Alts :: "regex \<Rightarrow> regex list \<Rightarrow> regex" where
  "Alts r [] = r"
| "Alts r (r' # rs) = Alt r (Alts r' rs)"

definition Str :: "string \<Rightarrow> regex" where
  "Str s = Cat (map (\<lambda>c. Atom (Lit c)) s)"

fun item_match :: "char \<Rightarrow> cset_item \<Rightarrow> bool" where
  "item_match c (Ch x) = (c = x)"
| "item_match c (Rng a b) = (ord a \<le> ord c \<and> ord c \<le> ord b)"
| "item_match c ClsDigit = is_decimal c"
| "item_match c ClsSpace = is_space c"

text \<open>Under \<^verbatim>\<open>re.IGNORECASE\<close> the members of a set are lowercased when the pattern is
  compiled, and the lowercased character of the text is looked up in it.\<close>

fun item_match_ignorecase :: "char \<Rightarrow> cset_item \<Rightarrow> bool" where
  "item_match_ignorecase c (Ch x) = (lower c = lower x)"
| "item_match_ignorecase c (Rng a b) =
     list_ex (\<lambda>n. lower (char_of n) = lower c) [ord a..<Suc (ord b)]"
| "item_match_ignorecase c ClsDigit = is_decimal (lower c)"
| "item_match_ignorecase c ClsSpace = is_space (lower c)"

fun atom_match :: "bool \<Rightarrow> atom \<Rightarrow> char \<Rightarrow> bool" where
  "atom_match ignorecase (Lit l) c = (if ignorecase then lower c = lower l else c = l)"
| "atom_match ignorecase (Set items) c =
     (if ignorecase then list_ex (item_match_ignorecase c) items else list_ex (item_match c) items)"
| "atom_match ignorecase Digit c = is_decimal c"
| "atom_match ignorecase Space c = is_space c"

text \<open>\<^verbatim>\<open>\b\<close> holds at offset \<open>i\<close> when exactly one of the characters before and after
  the offset is a word character; the ends of the text count as non-word.\<close>

definition at_boundary :: "string \<Rightarrow> nat \<Rightarrow> bool" where
  "at_boundary s i =
     (let that = (0 < i \<and> is_word (s ! (i - 1)));
          this = (i < length s \<and> is_word (s ! i))
      in this \<noteq> that)"

text \<open>The offsets at which a match of \<open>r\<close> that starts at offset \<open>i\<close> can end, in the
  order in which the backtracking matcher tries them; the matcher takes the first
  one with which the rest of the pattern matches.\<close>

fun rmatch :: "bool \<Rightarrow> regex \<Rightarrow> string \<Rightarrow> nat \<Rightarrow> nat list" where
  "rmatch ic Eps s i = [i]"
| "rmatch ic (Atom a) s i = (if i < length s \<and> atom_match ic a (s ! i) then [Suc i] else [])"
| "rmatch ic WordB s i = (if at_boundary s i then [i] else [])"
| "rmatch ic (Seq r1 r2) s i = concat (map (rmatch ic r2 s) (rmatch ic r1 s i))"
| "rmatch ic (Alt r1 r2) s i = rmatch ic r1 s i @ rmatch ic r2 s i"
| "rmatch ic (Opt r) s i = rmatch ic r s i @ [i]"
| "rmatch ic (Times n r) s i = ((\<lambda>ends. concat (map (rmatch ic r s) ends)) ^^ n) [i]"
| "rmatch ic (AtLeast n a) s i =
     (let k = length (takeWhile (atom_match ic a) (drop i s))
      in map (\<lambda>j. i + j) (rev [n..<Suc k]))"

definition match_at :: "bool \<Rightarrow> regex \<Rightarrow> string \<Rightarrow> nat \<Rightarrow> nat option" where
  "match_at ic r s i = (case rmatch ic r s i of [] \<Rightarrow> None | e # _ \<Rightarrow> Some e)"

text \<open>\<^verbatim>\<open>re.finditer\<close>: the matches from left to right, each search starting where the
  previous match ended. None of the ten patterns matches the empty string; after an
  empty match the model moves on by one character.\<close>

function finditer_from :: "bool \<Rightarrow> regex \<Rightarrow> string \<Rightarrow> nat \<Rightarrow> (nat \<times> nat) list" where
  "finditer_from ic r s pos =
     (if length s < pos then []
      else case match_at ic r s pos of
             None \<Rightarrow> finditer_from ic r s (Suc pos)
           | Some e \<Rightarrow> (pos, e) # finditer_from ic r s (if pos < e then e else Suc pos))"
  by pat_completeness auto
termination
  by (relation "measure (\<lambda>(ic, r, s, pos). Suc (length s) - pos)") auto

declare finditer_from.simps [simp del]

definition finditer :: "bool \<Rightarrow> regex \<Rightarrow> string \<Rightarrow> (nat \<times> nat) list" where
  "finditer ic r s = finditer_from ic r s 0"

text \<open>\<^verbatim>\<open>match.group()\<close> of a match from \<open>b\<close> to \<open>e\<close>.\<close>

definition group :: "string \<Rightarrow> nat \<times> nat \<Rightarrow> string" where
  "group s m = take (snd m - fst m) (drop (fst m) s)"

subsection \<open>The patterns\<close>

text \<open>\<^verbatim>\<open>\b0[1-9](?:[.\-\s]?\d{2}){4}\b\<close> and \<^verbatim>\<open>\+33[1-9](?:[.\-\s]?\d{2}){4}\b\<close>\<close>

definition phone_patterns :: "regex list" where
  "phone_patterns =
     [Cat [WordB, Atom (Lit CHR ''0''), Atom (Set [Rng CHR ''1'' CHR ''9'']),
           Times 4 (Cat [Opt (Atom (Set [Ch CHR ''.'', Ch CHR ''-'', ClsSpace])), Times 2 (Atom Digit)]),
           WordB],
      Cat [Atom (Lit CHR ''+''), Atom (Lit CHR ''3''), Atom (Lit CHR ''3''),
           Atom (Set [Rng CHR ''1'' CHR ''9'']),
           Times 4 (Cat [Opt (Atom (Set [Ch CHR ''.'', Ch CHR ''-'', ClsSpace])), Times 2 (Atom Digit)]),
           WordB]]"

text \<open>\<^verbatim>\<open>\b[A-Za-z0-9._%+-]+@[A-Za-z0-9.-]+\.[A-Z|a-z]{2,}\b\<close>\<close>

definition email_pattern :: regex where
  "email_pattern =
     Cat [WordB,
          AtLeast 1 (Set [Rng CHR ''A'' CHR ''Z'', Rng CHR ''a'' CHR ''z'', Rng CHR ''0'' CHR ''9'',
                          Ch CHR ''.'', Ch CHR ''_'', Ch CHR ''%'', Ch CHR ''+'', Ch CHR ''-'']),
          Atom (Lit CHR ''@''),
          AtLeast 1 (Set [Rng CHR ''A'' CHR ''Z'', Rng CHR ''a'' CHR ''z'', Rng CHR ''0'' CHR ''9'',
                          Ch CHR ''.'', Ch CHR ''-'']),
          Atom (Lit CHR ''.''),
          AtLeast 2 (Set [Rng CHR ''A'' CHR ''Z'', Ch CHR ''|'', Rng CHR ''a'' CHR ''z'']),
          WordB]"

text \<open>\<^verbatim>\<open>\b\d{14}\b\<close>\<close>

definition siret_pattern :: regex where
  "siret_pattern = Cat [WordB, Times 14 (Atom Digit), WordB]"

text \<open>\<^verbatim>\<open>\b[12]\d{12}\b\<close>\<close>

definition ssn_pattern :: regex where
  "ssn_pattern = Cat [WordB, Atom (Set [Ch CHR ''1'', Ch CHR ''2'']), Times 12 (Atom Digit), WordB]"

text \<open>\<^verbatim>\<open>\b\d+\s+(?:rue|avenue|boulevard|place|impasse|all\xe9e|chemin|route)\s+[A-Za-z\s]+\b\<close>
  and \<^verbatim>\<open>\b\d{5}\s+[A-Z][a-zA-Z\s-]+\b\<close>; \<^verbatim>\<open>\xe9\<close> stands for the e with acute accent of the
  source, the code point 233.\<close>

definition address_patterns :: "regex list" where
  "address_patterns =
     [Cat [WordB, AtLeast 1 Digit, AtLeast 1 Space,
           Alts (Str ''rue'')
             [Str ''avenue'', Str ''boulevard'', Str ''place'', Str ''impasse'',
              Str (''all'' @ [CHR 0xE9] @ ''e''), Str ''chemin'', Str ''route''],
           AtLeast 1 Space,
           AtLeast 1 (Set [Rng CHR ''A'' CHR ''Z'', Rng CHR ''a'' CHR ''z'', ClsSpace]),
           WordB],
      Cat [WordB, Times 5 (Atom Digit), AtLeast 1 Space,
           Atom (Set [Rng CHR ''A'' CHR ''Z'']),
           AtLeast 1 (Set [Rng CHR ''a'' CHR ''z'', Rng CHR ''A'' CHR ''Z'', ClsSpace, Ch CHR ''-'']),
           WordB]]"

text \<open>\<^verbatim>\<open>\bRG\s+\d+/\d+\b\<close>, \<^verbatim>\<open>\bdossier\s+n\xb0?\s*\d+[-/]\d+\b\<close> and
  \<^verbatim>\<open>\barticle\s+\d+(?:-\d+)?\b\<close>; \<^verbatim>\<open>\xb0\<close> stands for the degree sign of the
  source, the code point 176.\<close>

definition legal_patterns :: "regex list" where
  "legal_patterns =
     [Cat [WordB, Str ''RG'', AtLeast 1 Space, AtLeast 1 Digit, Atom (Lit CHR ''/''),
           AtLeast 1 Digit, WordB],
      Cat [WordB, Str ''dossier'', AtLeast 1 Space, Atom (Lit CHR ''n''), Opt (Atom (Lit (CHR 0xB0))),
           AtLeast 0 Space, AtLeast 1 Digit, Atom (Set [Ch CHR ''-'', Ch CHR ''/'']),
           AtLeast 1 Digit, WordB],
      Cat [WordB, Str ''article'', AtLeast 1 Space, AtLeast 1 Digit,
           Opt (Seq (Atom (Lit CHR ''-'')) (AtLeast 1 Digit)), WordB]]"

section \<open>Pattern extractor: \<^verbatim>\<open>RegexService.extract_entities\<close>\<close>

text \<open>
  Every \<^verbatim>\<open>Entity(...)\<close> draws a fresh \<^verbatim>\<open>uuid4\<close> for its \<^verbatim>\<open>id\<close>. The draws of the process
  are an input of the model: \<open>uuid n\<close> is the identifier of the \<open>n\<close>-th draw, and a
  call that starts after \<open>k\<close> draws gives the entity it creates when its list holds
  \<open>length entities\<close> entities the identifier \<open>uuid (k + length entities)\<close>.
\<close>

type_synonym uuid_source = "nat \<Rightarrow> string"

definition new_entity ::
  "uuid_source \<Rightarrow> nat \<Rightarrow> string \<Rightarrow> EntityType \<Rightarrow> EntitySource \<Rightarrow> real \<Rightarrow> string \<Rightarrow> Position list
   \<Rightarrow> Entity" where
  "new_entity uuid n t ty src conf repl ps =
     \<lparr>ident = uuid n, etext = t, etype = ty, source = src, confidence = conf,
      replacement = repl, positions = ps, selected = True\<rparr>"

text \<open>\<^verbatim>\<open>for match in re.finditer(pattern, text): entities.append(Entity(...))\<close>\<close>

definition append_matches ::
  "uuid_source \<Rightarrow> nat \<Rightarrow> string \<Rightarrow> EntityType \<Rightarrow> string \<Rightarrow> (nat \<times> nat) list \<Rightarrow> Entity list
   \<Rightarrow> Entity list" where
  "append_matches uuid k s ty repl matches entities =
     fold (\<lambda>m entities.
             entities @ [new_entity uuid (k + length entities) (group s m) ty REGEX 1 repl
                           [\<lparr>start = int (fst m), end_pos = int (snd m)\<rparr>]])
          matches entities"

definition generate_phone_replacement :: string where
  "generate_phone_replacement = ''06 XX XX XX XX''"

definition siret_replacement :: string where
  "siret_replacement = ''[SIRET Anonymis'' @ [CHR 0xE9] @ '']''"

definition ssn_replacement :: string where
  "ssn_replacement =
     ''[N'' @ [CHR 0xB0] @ '' S'' @ [CHR 0xE9] @ ''curit'' @ [CHR 0xE9] @ '' Sociale Anonymis''
       @ [CHR 0xE9] @ '']''"

definition address_replacement :: string where
  "address_replacement = ''[Adresse Anonymis'' @ [CHR 0xE9] @ ''e]''"

definition legal_replacement :: string where
  "legal_replacement = ''[R'' @ [CHR 0xE9] @ ''f'' @ [CHR 0xE9] @ ''rence Anonymis'' @ [CHR 0xE9] @ ''e]''"

text \<open>The SIRET loop appends an entity only when \<open>luhn_check\<close> accepts the match; an
  exception of \<open>luhn_check\<close> would leave the function.\<close>

fun siret_loop ::
  "uuid_source \<Rightarrow> nat \<Rightarrow> string \<Rightarrow> (nat \<times> nat) list \<Rightarrow> Entity list \<Rightarrow> error + Entity list" where
  "siret_loop uuid k s [] entities = Inr entities"
| "siret_loop uuid k s (m # ms) entities =
     (let siret = group s m
      in case luhn_check siret of
           Inl err \<Rightarrow> Inl err
         | Inr valid \<Rightarrow>
             if valid
             then siret_loop uuid k s ms
                    (entities @ [new_entity uuid (k + length entities) siret SIRET REGEX 1
                                   siret_replacement
                                   [\<lparr>start = int (fst m), end_pos = int (snd m)\<rparr>]])
             else siret_loop uuid k s ms entities)"

definition extract_entities :: "uuid_source \<Rightarrow> nat \<Rightarrow> string \<Rightarrow> error + Entity list" where
  "extract_entities uuid k s =
     (let entities = [];
          entities = fold (\<lambda>pattern. append_matches uuid k s PHONE generate_phone_replacement
                                        (finditer False pattern s))
                          phone_patterns entities;
          entities = append_matches uuid k s EMAIL ''[email.anonymise@exemple.fr]''
                       (finditer False email_pattern s) entities
      in case siret_loop uuid k s (finditer False siret_pattern s) entities of
           Inl err \<Rightarrow> Inl err
         | Inr entities \<Rightarrow>
             let entities = append_matches uuid k s SSN ssn_replacement
                              (finditer False ssn_pattern s) entities;
                 entities = fold (\<lambda>pattern. append_matches uuid k s ADDRESS address_replacement
                                               (finditer True pattern s))
                                 address_patterns entities;
                 entities = fold (\<lambda>pattern. append_matches uuid k s LEGAL legal_replacement
                                               (finditer True pattern s))
                                 legal_patterns entities
             in Inr entities)"

section \<open>NER adapter: \<^verbatim>\<open>NERService\<close>\<close>

text \<open>
  The spaCy model is outside the repository. It is a parameter of the model: a
  function from the text to the spans of \<^verbatim>\<open>doc.ents\<close>, or \<open>None\<close> when the model could
  not be loaded. No \<^verbatim>\<open>confidence\<close> extension is registered on the spans, so the
  confidences are the defaults \<^verbatim>\<open>round(0.9, 2)\<close> and \<^verbatim>\<open>round(0.85, 2)\<close>.
\<close>

record Span =
  label :: string
  span_text :: string
  start_char :: int
  end_char :: int

type_synonym nlp_model = "string \<Rightarrow> Span list"

record NERService =
  svc_nlp :: "nlp_model option"
  person_counter :: int
  org_counter :: int

text \<open>\<^verbatim>\<open>NERService.__init__\<close>\<close>

definition NERService_init :: "nlp_model option \<Rightarrow> NERService" where
  "NERService_init nlp0 = \<lparr>svc_nlp = nlp0, person_counter = 1, org_counter = 1\<rparr>"

text \<open>\<^verbatim>\<open>chr(n)\<close>, for the code points of the model (\<open>0 \<le> n < 256\<close>).\<close>

definition chr :: "int \<Rightarrow> char" where
  "chr n = char_of n"

fun ner_loop ::
  "uuid_source \<Rightarrow> nat \<Rightarrow> Span list \<Rightarrow> Entity list \<Rightarrow> NERService \<Rightarrow> Entity list \<times> NERService" where
  "ner_loop uuid k [] entities self = (entities, self)"
| "ner_loop uuid k (ent # ents) entities self =
     (if label ent = ''PER''
      then ner_loop uuid k ents
             (entities @ [new_entity uuid (k + length entities) (span_text ent) PERSON NER 0.9
                            (''Personne '' @ [chr (64 + person_counter self)])
                            [\<lparr>start = start_char ent, end_pos = end_char ent\<rparr>]])
             (self\<lparr>person_counter := person_counter self + 1\<rparr>)
      else if label ent = ''ORG''
      then ner_loop uuid k ents
             (entities @ [new_entity uuid (k + length entities) (span_text ent) ORGANIZATION NER 0.85
                            (''Organisation '' @ [chr (64 + org_counter self)])
                            [\<lparr>start = start_char ent, end_pos = end_char ent\<rparr>]])
             (self\<lparr>org_counter := org_counter self + 1\<rparr>)
      else ner_loop uuid k ents entities self)"

definition ner_extract_entities ::
  "uuid_source \<Rightarrow> nat \<Rightarrow> NERService \<Rightarrow> string \<Rightarrow> Entity list \<times> NERService" where
  "ner_extract_entities uuid k self s =
     (case svc_nlp self of
        None \<Rightarrow> ([], self)
      | Some model \<Rightarrow> ner_loop uuid k (model s) [] self)"

section \<open>LLM adapter: \<^verbatim>\<open>OllamaService.extract_entities\<close>\<close>

record OllamaConfig =
  url :: string
  model :: string
  custom_prompt :: "string option"
  timeout :: int

definition ollama_extract_entities :: "OllamaConfig \<Rightarrow> string \<Rightarrow> Entity list" where
  "ollama_extract_entities config s = []"

section \<open>The endpoint \<^verbatim>\<open>process_document\<close>\<close>

record DocumentRequest =
  content :: string
  filename :: string
  mode :: ProcessingMode
  ollama_config :: "OllamaConfig option"

record ProcessingResponse =
  entities :: "Entity list"
  processing_time :: real
  mode_used :: ProcessingMode
  total_occurrences :: int
  spacy_available :: bool
  ollama_available :: bool

text \<open>The state of the process that the endpoint reads and changes: the global \<^verbatim>\<open>nlp\<close>,
  the module-level \<^verbatim>\<open>ner_service\<close>, and the number of identifiers drawn so far.\<close>

record Server =
  nlp :: "nlp_model option"
  ner_service :: NERService
  uuids_drawn :: nat

definition Server_init :: "nlp_model option \<Rightarrow> Server" where
  "Server_init nlp0 = \<lparr>nlp = nlp0, ner_service = NERService_init nlp0, uuids_drawn = 0\<rparr>"

text \<open>The clock readings are an input: \<open>elapsed\<close> is the measured processing time.\<close>

definition process_document ::
  "uuid_source \<Rightarrow> real \<Rightarrow> Server \<Rightarrow> DocumentRequest \<Rightarrow> error + ProcessingResponse \<times> Server" where
  "process_document uuid elapsed srv request =
     (let all_entities = []
      in case extract_entities uuid (uuids_drawn srv) (content request) of
           Inl err \<Rightarrow> Inl err
         | Inr regex_entities \<Rightarrow>
             let all_entities = all_entities @ regex_entities;
                 srv = srv\<lparr>uuids_drawn := uuids_drawn srv + length regex_entities\<rparr>;
                 (all_entities, srv) =
                   (if mode request = ADVANCED \<and> nlp srv \<noteq> None
                    then let (ner_entities, svc) =
                               ner_extract_entities uuid (uuids_drawn srv) (ner_service srv)
                                 (content request)
                         in (all_entities @ ner_entities,
                             srv\<lparr>ner_service := svc,
                                 uuids_drawn := uuids_drawn srv + length ner_entities\<rparr>)
                    else (all_entities, srv));
                 all_entities = (if mode request = OLLAMA then all_entities else all_entities)
             in case deduplicate all_entities of
                  Inl err \<Rightarrow> Inl err
                | Inr unique_entities \<Rightarrow>
                    Inr (\<lparr>entities = unique_entities,
                          processing_time = elapsed,
                          mode_used = mode request,
                          total_occurrences = int (length unique_entities),
                          spacy_available = (nlp srv \<noteq> None),
                          ollama_available = False\<rparr>,
                         srv))"

section \<open>Notions of the specification about the pattern extractor\<close>

text \<open>A run of exactly \<open>n\<close> consecutive digits at offset \<open>i\<close> that is maximal: the
  characters next to it, if any, are not digits.\<close>

definition maximal_digit_run :: "string \<Rightarrow> nat \<Rightarrow> nat \<Rightarrow> bool" where
  "maximal_digit_run s i n =
     (i + n \<le> length s \<and> list_all is_decimal (take n (drop i s))
      \<and> (i = 0 \<or> \<not> is_decimal (s ! (i - 1)))
      \<and> (i + n = length s \<or> \<not> is_decimal (s ! (i + n))))"

text \<open>A run of \<open>n\<close> consecutive digits at offset \<open>i\<close> between word boundaries: the
  characters next to it, if any, are not word characters (letters, digits,
  underscore).\<close>

definition delimited_digits :: "string \<Rightarrow> nat \<Rightarrow> nat \<Rightarrow> bool" where
  "delimited_digits s i n =
     (i + n \<le> length s \<and> list_all is_decimal (take n (drop i s))
      \<and> (i = 0 \<or> \<not> is_word (s ! (i - 1)))
      \<and> (i + n = length s \<or> \<not> is_word (s ! (i + n))))"

text \<open>An entity without its identifier, to compare entities up to the random
  \<^verbatim>\<open>uuid4\<close>.\<close>

definition no_ident :: "Entity \<Rightarrow> Entity" where
  "no_ident e = e\<lparr>ident := []\<rparr>"

text \<open>The entity that the pattern extractor creates for a match.\<close>

definition match_entity :: "string \<Rightarrow> EntityType \<Rightarrow> string \<Rightarrow> nat \<times> nat \<Rightarrow> Entity" where
  "match_entity s ty repl m =
     \<lparr>ident = [], etext = group s m, etype = ty, source = REGEX, confidence = 1,
      replacement = repl, positions = [\<lparr>start = int (fst m), end_pos = int (snd m)\<rparr>],
      selected = True\<rparr>"

text \<open>The entities of the pattern extractor, without identifiers, in the order of
  emission: the matches of each rule, the SIRET matches kept only when the checksum
  accepts them.\<close>

definition pattern_entities :: "string \<Rightarrow> Entity list" where
  "pattern_entities s =
     concat (map (\<lambda>p. map (match_entity s PHONE generate_phone_replacement) (finditer False p s))
               phone_patterns)
     @ map (match_entity s EMAIL ''[email.anonymise@exemple.fr]'') (finditer False email_pattern s)
     @ map (match_entity s SIRET siret_replacement)
         (filter (\<lambda>m. luhn_check (group s m) = Inr True) (finditer False siret_pattern s))
     @ map (match_entity s SSN ssn_replacement) (finditer False ssn_pattern s)
     @ concat (map (\<lambda>p. map (match_entity s ADDRESS address_replacement) (finditer True p s))
                 address_patterns)
     @ concat (map (\<lambda>p. map (match_entity s LEGAL legal_replacement) (finditer True p s))
                 legal_patterns)"

subsection \<open>Inputs of the examples\<close>

definition example_uuid :: uuid_source where
  "example_uuid n = ''id'' @ replicate n CHR ''x''"

text \<open>A model that finds one person, the whole of the text.\<close>

definition example_nlp :: nlp_model where
  "example_nlp s = [\<lparr>label = ''PER'', span_text = s, start_char = 0, end_char = int (length s)\<rparr>]"

section \<open>The checksum validator computes the specified checksum\<close>

lemma digits_of_str_decimal:
  "\<forall>c\<in>set s. is_decimal c \<Longrightarrow> digits_of_str s = Inr (map (\<lambda>c. ord c - 48) s)"
  by (induction s) (simp_all add: int_of_char_def)

lemma sum_digits_doubled: "d \<le> 9 \<Longrightarrow> sum_list (digits_of_nat (d * 2)) = doubled d"
proof -
  assume "d \<le> 9"
  then have "d \<in> {0, 1, 2, 3, 4, 5, 6, 7, 8, 9}" by auto
  then show ?thesis
    by (elim insertE emptyE; simp add: digits_of_nat.simps doubled_def)
qed

lemma fold_add_sum: "fold (\<lambda>d c. c + g d) xs c0 = c0 + sum_list (map g xs)"
  for g :: "'a \<Rightarrow> nat"
  by (induction xs arbitrary: c0) simp_all

lemma alternate_sum:
  "sum_list (every_second r) + sum_list (map g (every_second (drop 1 r)))
     = sum_list (map (\<lambda>i. if even i then r ! i else g (r ! i)) [0..<length r])"
  for r :: "nat list"
proof (induction r rule: every_second.induct)
  case 1 show ?case by simp
next
  case (2 x) show ?case by simp
next
  case (3 x y xs)
  have "sum_list (map (\<lambda>i. if even i then (x # y # xs) ! i else g ((x # y # xs) ! i)) [0..<length (x # y # xs)])
      = x + g y + sum_list (map (\<lambda>i. if even i then xs ! i else g (xs ! i)) [0..<length xs])"
    by (simp add: map_upt_Suc del: upt_Suc cong: if_cong)
  moreover have "every_second (drop 1 (x # y # xs)) = y # every_second (drop 1 xs)"
    by (cases xs) simp_all
  ultimately show ?case using 3 by simp
qed

lemma set_every_second: "set (every_second xs) \<subseteq> set xs"
  by (induction xs rule: every_second.induct) auto

lemma luhn_checksum_alternate:
  assumes "\<forall>d\<in>set ds. d \<le> 9"
  shows "luhn_checksum ds
       = sum_list (map (\<lambda>i. if even i then rev ds ! i else doubled (rev ds ! i)) [0..<length ds]) mod 10"
proof -
  let ?r = "rev ds"
  have "set (every_second (drop 1 ?r)) \<subseteq> set ds"
    using set_every_second [of "drop 1 ?r"] set_drop_subset [of 1 ?r] by auto
  with assms have dd: "map (\<lambda>d. sum_list (digits_of_nat (d * 2))) (every_second (drop 1 ?r))
          = map doubled (every_second (drop 1 ?r))"
    by (intro map_cong refl sum_digits_doubled) auto
  have "luhn_checksum ds
       = (sum_list (every_second ?r) + sum_list (map doubled (every_second (drop 1 ?r)))) mod 10"
    by (simp only: luhn_checksum_def Let_def fold_add_sum dd)
  then show ?thesis
    using alternate_sum [of ?r doubled] by simp
qed

lemma luhn_total_spec_index:
  "luhn_total_spec number
     = sum_list (map (\<lambda>i. if even i then rev (map (\<lambda>c. ord c - 48) number) ! i
                           else doubled (rev (map (\<lambda>c. ord c - 48) number) ! i))
                     [0..<length number])"
proof -
  have "[1..<Suc (length number)] = map Suc [0..<length number]"
    by (simp add: map_Suc_upt)
  then have "luhn_total_spec number
     = sum_list (map (\<lambda>i. let d = ord (rev number ! i) - 48
                           in if even i then d else doubled d) [0..<length number])"
    by (simp add: luhn_total_spec_def comp_def)
  also have "\<dots> = sum_list (map (\<lambda>i. if even i then rev (map (\<lambda>c. ord c - 48) number) ! i
                           else doubled (rev (map (\<lambda>c. ord c - 48) number) ! i))
                     [0..<length number])"
    by (intro arg_cong [where f = sum_list] map_cong refl) (simp add: rev_map Let_def)
  finally show ?thesis .
qed

text \<open>
  Claim C3. For every numeric string (every character a decimal digit),
  \<open>luhn_check\<close> returns true exactly when the total of the specification is
  congruent to 0 modulo 10: counting positions from the rightmost digit, the digits at
  odd positions are added as they are, and each digit at an even position is doubled,
  the digits of the doubled value being summed when it exceeds 9.
\<close>

theorem luhn_check_spec:
  assumes "list_all is_decimal number"
  shows "luhn_check number = Inr (luhn_total_spec number mod 10 = 0)"
proof -
  let ?ds = "map (\<lambda>c. ord c - 48) number"
  from assms have dec: "\<forall>c\<in>set number. is_decimal c"
    by (simp add: list_all_iff)
  then have "\<forall>d\<in>set ?ds. d \<le> 9"
    by (auto simp: is_decimal_def)
  then have "luhn_checksum ?ds = luhn_total_spec number mod 10"
    by (simp add: luhn_checksum_alternate luhn_total_spec_index)
  then show ?thesis
    using dec by (simp add: luhn_check_def digits_of_str_decimal)
qed

theorem luhn_check_spec_witness:
  "list_all is_decimal ''73282932000074''
   \<and> luhn_check ''73282932000074'' = Inr True
   \<and> luhn_total_spec ''73282932000074'' = 50"
proof -
  have d: "list_all is_decimal ''73282932000074''"
    by (simp add: is_decimal_def ord_def)
  have t: "luhn_total_spec ''73282932000074'' = 50"
    by (simp add: luhn_total_spec_def ord_def doubled_def upt_conv_Cons)
  from luhn_check_spec [OF d] t d show ?thesis by simp
qed

section \<open>The rewriter replaces exactly the selected spans\<close>

lemma laid_out_bound: "laid_out n cursor es \<Longrightarrow> cursor \<le> n"
proof (induction es arbitrary: cursor)
  case Nil then show ?case by simp
next
  case (Cons e es)
  from Cons.prems have "laid_out n (nat (end_pos (hd (positions e)))) es" by simp
  from Cons.IH [OF this] Cons.prems show ?case by auto
qed

lemma splice_laid_out:
  "laid_out (length original) cursor es \<Longrightarrow>
   foldr (\<lambda>e r. splice r e) es original = take cursor original @ replace_spans original cursor es"
proof (induction es arbitrary: cursor)
  case Nil
  then show ?case by simp
next
  case (Cons e es)
  let ?p = "hd (positions e)"
  let ?a = "nat (start ?p)" and ?b = "nat (end_pos ?p)"
  from Cons.prems have lo: "laid_out (length original) ?b es"
    and c: "int cursor \<le> start ?p" and ab: "start ?p < end_pos ?p" by simp_all
  from laid_out_bound [OF lo] have b: "?b \<le> length original" .
  have a: "cursor \<le> ?a" "?a \<le> ?b" "0 \<le> start ?p" "0 \<le> end_pos ?p" using c ab by simp_all
  let ?rest = "replace_spans original ?b es"
  have "foldr (\<lambda>e r. splice r e) (e # es) original = splice (take ?b original @ ?rest) e"
    using Cons.IH [OF lo] by simp
  also have "\<dots> = take ?a original @ replacement e @ ?rest"
    using a b by (simp add: splice_def py_slice_to_def py_slice_from_def min_def Let_def)
  also have "take ?a original = take cursor original @ take (?a - cursor) (drop cursor original)"
    using a by (metis le_add_diff_inverse take_add)
  finally show ?case by (simp add: Let_def)
qed

lemma length_replace_spans:
  "laid_out (length original) cursor es \<Longrightarrow>
   int (length (replace_spans original cursor es))
     = int (length original) - int cursor - (\<Sum>e\<leftarrow>es. span_length e)
       + (\<Sum>e\<leftarrow>es. int (length (replacement e)))"
proof (induction es arbitrary: cursor)
  case Nil
  then show ?case by simp
next
  case (Cons e es)
  let ?p = "hd (positions e)"
  let ?a = "nat (start ?p)" and ?b = "nat (end_pos ?p)"
  from Cons.prems have lo: "laid_out (length original) ?b es"
    and c: "int cursor \<le> start ?p" and ab: "start ?p < end_pos ?p" by simp_all
  from laid_out_bound [OF lo] have b: "?b \<le> length original" .
  have "length (take (?a - cursor) (drop cursor original)) = ?a - cursor"
    using b c ab by simp
  then show ?case
    using Cons.IH [OF lo] b c ab by (simp add: Let_def span_length_def)
qed

lemma non_overlapping_distinct_starts:
  "list_all (\<lambda>p. start p < end_pos p) ps \<Longrightarrow> non_overlapping ps \<Longrightarrow> distinct (map start ps)"
proof (induction ps)
  case Nil
  then show ?case by simp
next
  case (Cons p ps)
  have "start p \<noteq> start q" if "q \<in> set ps" for q
  proof -
    from Cons.prems that have "disjoint_spans p q" "start p < end_pos p" "start q < end_pos q"
      by (simp_all add: list_all_iff)
    then show ?thesis by (auto simp: disjoint_spans_def)
  qed
  then have "start p \<notin> start ` set ps" by auto
  with Cons show ?case by simp
qed

lemma non_overlapping_pairs:
  "non_overlapping ps \<Longrightarrow> p \<in> set ps \<Longrightarrow> q \<in> set ps \<Longrightarrow> start p \<noteq> start q
   \<Longrightarrow> disjoint_spans p q"
  by (induction ps) (auto simp: list_all_iff disjoint_spans_def)

lemma filter_same_key_distinct:
  "distinct (map f xs) \<Longrightarrow> k \<in> set xs \<Longrightarrow> filter (\<lambda>x. f k = f x) xs = [k]"
proof (induction xs)
  case Nil then show ?case by simp
next
  case (Cons x xs)
  show ?case
  proof (cases "k = x")
    case True
    with Cons.prems have "\<forall>y\<in>set xs. f k \<noteq> f y" by auto
    then have "filter (\<lambda>x. f k = f x) xs = []" by (simp add: filter_empty_conv)
    with True show ?thesis by simp
  next
    case False
    with Cons.prems have kx: "k \<in> set xs" by simp
    from Cons.prems have "f x \<notin> f ` set xs" by simp
    with kx have "f k \<noteq> f x" by (metis imageI)
    note kx this
    with Cons show ?thesis by simp
  qed
qed

lemma sort_key_unique:
  assumes "mset ys = mset xs" and "distinct (map f xs)" and "sorted (map f ys)"
  shows "sort_key f xs = ys"
proof (rule properties_for_sort_key [OF assms(1) _ assms(3)])
  fix k assume k: "k \<in> set ys"
  have "mset (map f ys) = mset (map f xs)" using assms(1) by simp
  then have dy: "distinct (map f ys)" using assms(2) by (metis mset_eq_imp_distinct_iff)
  have "k \<in> set xs" using k assms(1) by (metis mset_eq_setD)
  then show "filter (\<lambda>x. f k = f x) ys = filter (\<lambda>x. f k = f x) xs"
    using k dy assms(2) by (simp add: filter_same_key_distinct)
qed

lemma sort_key_permutation:
  assumes "mset ys = mset xs" and "distinct (map f xs)"
  shows "sort_key f ys = sort_key f xs"
proof -
  have "mset (sort_key f ys) = mset xs" using assms(1) by simp
  from sort_key_unique [OF this assms(2)] show ?thesis by simp
qed

lemma rev_sort_key_descending:
  fixes f :: "'a \<Rightarrow> int"
  assumes "distinct (map f xs)"
  shows "rev (sort_key (\<lambda>x. - f x) xs) = sort_key f xs"
proof -
  let ?desc = "sort_key (\<lambda>x. - f x) xs"
  have "sorted (map (\<lambda>x. - f x) ?desc)" by simp
  then have s: "sorted (map f (rev ?desc))"
    by (simp add: sorted_wrt_rev sorted_wrt_map rev_map)
  have m: "mset (rev ?desc) = mset xs" by simp
  show ?thesis by (rule sort_key_unique [OF m assms s, symmetric])
qed

lemma sorted_laid_out:
  assumes "sorted (map (\<lambda>e. start (hd (positions e))) xs)"
    and "\<forall>e\<in>set xs. positions e \<noteq> [] \<and> within_text original (hd (positions e))"
    and "distinct (map (\<lambda>e. start (hd (positions e))) xs)"
    and "\<forall>e\<in>set xs. \<forall>e'\<in>set xs. start (hd (positions e)) \<noteq> start (hd (positions e'))
           \<longrightarrow> disjoint_spans (hd (positions e)) (hd (positions e'))"
    and "\<forall>e\<in>set xs. int cursor \<le> start (hd (positions e))"
    and "cursor \<le> length original"
  shows "laid_out (length original) cursor xs"
  using assms
proof (induction xs arbitrary: cursor)
  case Nil
  then show ?case by simp
next
  case (Cons e es)
  let ?b = "nat (end_pos (hd (positions e)))"
  have w: "within_text original (hd (positions e))" "positions e \<noteq> []"
    using Cons.prems(2) by simp_all
  have "\<forall>e'\<in>set es. int ?b \<le> start (hd (positions e'))"
  proof
    fix e' assume e': "e' \<in> set es"
    then have le: "start (hd (positions e)) \<le> start (hd (positions e'))"
      using Cons.prems(1) by simp
    have ne: "start (hd (positions e)) \<noteq> start (hd (positions e'))"
      using Cons.prems(3) e' by auto
    then have "disjoint_spans (hd (positions e)) (hd (positions e'))"
      using Cons.prems(4) e' by simp
    moreover have "within_text original (hd (positions e'))"
      using Cons.prems(2) e' by simp
    ultimately show "int ?b \<le> start (hd (positions e'))"
      using le w by (auto simp: disjoint_spans_def within_text_def)
  qed
  moreover have "?b \<le> length original" using w by (simp add: within_text_def nat_le_iff)
  ultimately have "laid_out (length original) ?b es"
    using Cons.prems by (intro Cons.IH) simp_all
  then show ?case using w Cons.prems(5) by (simp add: within_text_def)
qed

lemma valid_selection_laid_out:
  assumes "valid_selection original ents"
  shows "laid_out (length original) 0
           (sort_key (\<lambda>e. start (hd (positions e))) (filter selected ents))"
proof -
  let ?sel = "filter selected ents"
  let ?f = "\<lambda>e. start (hd (positions e))"
  from assms have ne: "\<forall>e\<in>set ?sel. positions e \<noteq> []"
    and w: "\<forall>e\<in>set ?sel. within_text original (hd (positions e))"
    and no: "non_overlapping (first_positions ?sel)"
    by (simp_all add: valid_selection_def Let_def list_all_iff first_positions_def)
  have "list_all (\<lambda>p. start p < end_pos p) (first_positions ?sel)"
    using w by (simp add: list_all_iff first_positions_def within_text_def)
  from non_overlapping_distinct_starts [OF this no]
  have d: "distinct (map ?f ?sel)" by (simp add: first_positions_def comp_def)
  have "mset (map ?f (sort_key ?f ?sel)) = mset (map ?f ?sel)" by simp
  then have d': "distinct (map ?f (sort_key ?f ?sel))" using d by (metis mset_eq_imp_distinct_iff)
  have pairs: "\<forall>e\<in>set ?sel. \<forall>e'\<in>set ?sel. ?f e \<noteq> ?f e'
           \<longrightarrow> disjoint_spans (hd (positions e)) (hd (positions e'))"
    using non_overlapping_pairs [OF no] by (simp add: first_positions_def)
  show ?thesis
    using ne w d' pairs
    by (intro sorted_laid_out) (simp_all add: within_text_def)
qed

lemma apply_anonymization_valid:
  assumes "valid_selection original ents"
  shows "apply_anonymization original ents = Inr (rewrite_spec original ents)"
proof -
  let ?sel = "filter selected ents"
  let ?f = "\<lambda>e. start (hd (positions e))"
  from assms have ne: "\<not> list_ex (\<lambda>e. positions e = []) ?sel"
    and w: "\<forall>e\<in>set ?sel. within_text original (hd (positions e))"
    and no: "non_overlapping (first_positions ?sel)"
    by (simp_all add: valid_selection_def Let_def list_all_iff list_ex_iff first_positions_def)
  have "list_all (\<lambda>p. start p < end_pos p) (first_positions ?sel)"
    using w by (simp add: list_all_iff first_positions_def within_text_def)
  from non_overlapping_distinct_starts [OF this no]
  have d: "distinct (map ?f ?sel)" by (simp add: first_positions_def comp_def)
  have "fold (\<lambda>entity result. splice result entity) (sort_key (\<lambda>x. - ?f x) ?sel) original
      = foldr (\<lambda>e r. splice r e) (rev (sort_key (\<lambda>x. - ?f x) ?sel)) original"
    by (simp add: foldr_conv_fold)
  also have "\<dots> = foldr (\<lambda>e r. splice r e) (sort_key ?f ?sel) original"
    by (simp add: rev_sort_key_descending [OF d])
  also have "\<dots> = rewrite_spec original ents"
    using splice_laid_out [OF valid_selection_laid_out [OF assms]] by (simp add: rewrite_spec_def)
  finally show ?thesis using ne by (simp add: apply_anonymization_def Let_def)
qed

lemma length_rewrite_spec:
  assumes "valid_selection original ents"
  shows "int (length (rewrite_spec original ents))
       = int (length original) - (\<Sum>e\<leftarrow>filter selected ents. span_length e)
         + (\<Sum>e\<leftarrow>filter selected ents. int (length (replacement e)))"
proof -
  let ?sel = "filter selected ents"
  let ?asc = "sort_key (\<lambda>e. start (hd (positions e))) ?sel"
  have "mset (map span_length ?asc) = mset (map span_length ?sel)"
    and "mset (map (\<lambda>e. int (length (replacement e))) ?asc)
       = mset (map (\<lambda>e. int (length (replacement e))) ?sel)" by simp_all
  then have "sum_list (map span_length ?asc) = sum_list (map span_length ?sel)"
    and "sum_list (map (\<lambda>e. int (length (replacement e))) ?asc)
       = sum_list (map (\<lambda>e. int (length (replacement e))) ?sel)"
    by (metis sum_mset_sum_list)+
  then show ?thesis
    using length_replace_spans [OF valid_selection_laid_out [OF assms]]
    by (simp add: rewrite_spec_def)
qed

lemma laid_out_starts:
  "laid_out n cursor es \<Longrightarrow> e \<in> set es \<Longrightarrow> int cursor \<le> start (hd (positions e))"
proof (induction es arbitrary: cursor)
  case Nil then show ?case by simp
next
  case (Cons x es)
  show ?case
  proof (cases "e = x")
    case True
    with Cons.prems show ?thesis by simp
  next
    case False
    with Cons.prems have "e \<in> set es" "laid_out n (nat (end_pos (hd (positions x)))) es" by simp_all
    from Cons.IH [OF this(2) this(1)] Cons.prems(1) show ?thesis by simp
  qed
qed

lemma shift_before:
  "laid_out n cursor es \<Longrightarrow> i \<le> int cursor \<Longrightarrow> shift es i = 0"
proof -
  assume lo: "laid_out n cursor es" and i: "i \<le> int cursor"
  have "filter (\<lambda>e. end_pos (hd (positions e)) \<le> i) es = []"
    using lo i
  proof (induction es arbitrary: cursor)
    case Nil then show ?case by simp
  next
    case (Cons x es)
    from Cons.prems have "laid_out n (nat (end_pos (hd (positions x)))) es"
      and "i \<le> int (nat (end_pos (hd (positions x))))" by simp_all
    from Cons.IH [OF this] Cons.prems show ?case by simp
  qed
  then show ?thesis by (simp add: shift_def)
qed

lemma shift_Cons:
  "shift (e # es) i =
     (if end_pos (hd (positions e)) \<le> i then int (length (replacement e)) - span_length e else 0)
     + shift es i"
  by (simp add: shift_def)

lemma shift_nonneg:
  "laid_out n cursor es \<Longrightarrow> int cursor \<le> i \<Longrightarrow> 0 \<le> i - int cursor + shift es i"
proof (induction es arbitrary: cursor)
  case Nil then show ?case by (simp add: shift_def)
next
  case (Cons x es)
  let ?a = "start (hd (positions x))" and ?b = "end_pos (hd (positions x))"
  from Cons.prems have lo: "laid_out n (nat ?b) es" and c: "int cursor \<le> ?a" and ab: "?a < ?b"
    by simp_all
  show ?case
  proof (cases "?b \<le> i")
    case True
    then have "int (nat ?b) \<le> i" using ab c by simp
    from Cons.IH [OF lo this] have "0 \<le> i - ?b + shift es i" using ab c by simp
    then show ?thesis using True c ab by (simp add: shift_Cons span_length_def)
  next
    case False
    then have "shift es i = 0" using shift_before [OF lo, of i] ab c by simp
    then show ?thesis using False Cons.prems(2) by (simp add: shift_Cons)
  qed
qed

lemma nth_append3: "(xs @ ys @ zs) ! (length xs + length ys + k) = zs ! k"
  by (simp add: nth_append)

lemma drop_append3: "drop (length xs + length ys + k) (xs @ ys @ zs) = drop k zs"
  by simp

lemma drop_length_append: "n = length xs \<Longrightarrow> drop n (xs @ ys) = ys"
  by simp

lemma in_span_Cons:
  "in_span (e # es) i =
     ((start (hd (positions e)) \<le> i \<and> i < end_pos (hd (positions e))) \<or> in_span es i)"
  by (simp add: in_span_def)

lemma outside_preserved:
  "laid_out (length original) cursor es \<Longrightarrow> int cursor \<le> i \<Longrightarrow> i < int (length original)
   \<Longrightarrow> \<not> in_span es i
   \<Longrightarrow> nat (i - int cursor + shift es i) < length (replace_spans original cursor es)
       \<and> replace_spans original cursor es ! nat (i - int cursor + shift es i) = original ! nat i"
proof (induction es arbitrary: cursor)
  case Nil
  then show ?case by (simp add: shift_def nat_diff_distrib' nat_add_distrib) 
next
  case (Cons x es)
  let ?a = "start (hd (positions x))" and ?b = "end_pos (hd (positions x))"
  from Cons.prems have lo: "laid_out (length original) (nat ?b) es"
    and c: "int cursor \<le> ?a" and ab: "?a < ?b" by simp_all
  from laid_out_bound [OF lo] have b: "nat ?b \<le> length original" .
  let ?A = "take (nat ?a - cursor) (drop cursor original)"
  let ?R = "replacement x"
  let ?rest = "replace_spans original (nat ?b) es"
  have out: "replace_spans original cursor (x # es) = ?A @ ?R @ ?rest"
    by (simp add: Let_def)
  have "length ?A = nat ?a - cursor" using b c ab by simp
  then have lenA: "int (length ?A) = ?a - int cursor" using c by linarith
  from Cons.prems(4) have nx: "\<not> (?a \<le> i \<and> i < ?b)" and nes: "\<not> in_span es i"
    by (simp_all add: in_span_Cons)
  show ?case
  proof (cases "i < ?a")
    case True
    then have "shift es i = 0" using shift_before [OF lo, of i] ab c by simp
    then have sh: "shift (x # es) i = 0" using True ab by (simp add: shift_Cons)
    have k: "nat (i - int cursor) < length ?A"
      using True Cons.prems(2) lenA by linarith
    have "cursor + nat (i - int cursor) = nat i"
      using Cons.prems(2) by linarith
    moreover have "?A ! nat (i - int cursor) = original ! (cursor + nat (i - int cursor))"
      using k laid_out_bound [OF Cons.prems(1)] by simp
    ultimately have "?A ! nat (i - int cursor) = original ! nat i"
      by simp
    moreover have "(?A @ ?R @ ?rest) ! nat (i - int cursor) = ?A ! nat (i - int cursor)"
      using k by (simp only: nth_append if_True)
    moreover have "nat (i - int cursor) < length (?A @ ?R @ ?rest)"
      using k by (simp only: length_append trans_less_add1)
    ultimately show ?thesis unfolding out sh by (simp only: add_0_right)
  next
    case False
    with nx have bi: "?b \<le> i" by simp
    then have bi': "int (nat ?b) \<le> i" using ab c by simp
    from Cons.IH [OF lo bi' Cons.prems(3) nes]
    have IH: "nat (i - ?b + shift es i) < length ?rest"
      "?rest ! nat (i - ?b + shift es i) = original ! nat i"
      using ab c by simp_all
    have nn: "0 \<le> i - ?b + shift es i"
      using shift_nonneg [OF lo bi'] ab c by simp
    have sh: "shift (x # es) i = int (length ?R) - (?b - ?a) + shift es i"
      using bi by (simp add: shift_Cons span_length_def)
    have idx: "nat (i - int cursor + shift (x # es) i)
             = length ?A + length ?R + nat (i - ?b + shift es i)"
      using nn sh lenA by linarith
    have "length ?A + length ?R + nat (i - ?b + shift es i) < length (?A @ ?R @ ?rest)"
      using IH(1) by (simp only: length_append)
    then show ?thesis
      unfolding idx out nth_append3 using IH(2) by simp
  qed
qed

lemma replacement_in_place:
  "laid_out (length original) cursor es \<Longrightarrow> e \<in> set es
   \<Longrightarrow> take (length (replacement e))
         (drop (nat (start (hd (positions e)) - int cursor + shift es (start (hd (positions e)))))
            (replace_spans original cursor es)) = replacement e"
proof (induction es arbitrary: cursor)
  case Nil
  then show ?case by simp
next
  case (Cons x es)
  let ?a = "start (hd (positions x))" and ?b = "end_pos (hd (positions x))"
  from Cons.prems have lo: "laid_out (length original) (nat ?b) es"
    and c: "int cursor \<le> ?a" and ab: "?a < ?b" by simp_all
  from laid_out_bound [OF lo] have b: "nat ?b \<le> length original" .
  let ?A = "take (nat ?a - cursor) (drop cursor original)"
  let ?R = "replacement x"
  let ?rest = "replace_spans original (nat ?b) es"
  have out: "replace_spans original cursor (x # es) = ?A @ ?R @ ?rest"
    by (simp add: Let_def)
  have "length ?A = nat ?a - cursor" using b c ab by simp
  then have lenA: "int (length ?A) = ?a - int cursor" using c by linarith
  show ?case
  proof (cases "e = x")
    case True
    have "shift es ?a = 0" using shift_before [OF lo, of ?a] ab c by simp
    then have sh: "shift (x # es) ?a = 0" using ab by (simp add: shift_Cons)
    have "nat (?a - int cursor + shift (x # es) ?a) = length ?A"
      using sh lenA by linarith
    then have "drop (nat (?a - int cursor + shift (x # es) ?a)) (?A @ ?R @ ?rest) = ?R @ ?rest"
      by (rule drop_length_append)
    then show ?thesis unfolding out using True by simp
  next
    case False
    with Cons.prems have e: "e \<in> set es" by simp
    let ?s = "start (hd (positions e))"
    from laid_out_starts [OF lo e] have bs: "int (nat ?b) \<le> ?s" .
    then have bs': "?b \<le> ?s" using ab c by simp
    have nn: "0 \<le> ?s - ?b + shift es ?s"
      using shift_nonneg [OF lo bs] ab c by simp
    have sh: "shift (x # es) ?s = int (length ?R) - (?b - ?a) + shift es ?s"
      using bs' by (simp add: shift_Cons span_length_def)
    have idx: "nat (?s - int cursor + shift (x # es) ?s)
             = length ?A + length ?R + nat (?s - ?b + shift es ?s)"
      using nn sh lenA by linarith
    from Cons.IH [OF lo e]
    have "take (length (replacement e)) (drop (nat (?s - ?b + shift es ?s)) ?rest) = replacement e"
      using ab c by simp
    then show ?thesis unfolding idx out drop_append3 .
  qed
qed

lemma sum_list_sort_key:
  "sum_list (map g (sort_key f xs)) = sum_list (map g xs)"
  for g :: "'a \<Rightarrow> int"
proof -
  have "mset (map g (sort_key f xs)) = mset (map g xs)" by simp
  then show ?thesis by (metis sum_mset_sum_list)
qed

lemma shift_sort_key: "shift (sort_key f es) i = shift es i"
  by (simp add: shift_def filter_sort sum_list_sort_key)

lemma in_span_sort_key: "in_span (sort_key f es) i = in_span es i"
  by (simp add: in_span_def list_ex_iff)

text \<open>
  Claim C1. For every original text and every entity list whose selected entities
  have first positions that lie within the text and do not overlap pairwise,
  \<open>apply_anonymization\<close> keeps the entities with \<open>selected = true\<close>, processes them
  in descending order of \<open>positions[0].start\<close>, and returns the original text with
  the first span of each selected entity replaced exactly by its replacement: the
  result is the left-to-right rewrite of the specification, its length is
  \<open>len(original)\<close> minus the lengths of the selected spans plus the lengths of the
  replacements, every character outside the selected spans is preserved (at its
  shifted offset), and every replacement stands where its span stood.
\<close>

theorem apply_anonymization_correct:
  assumes "valid_selection original ents"
  shows "\<exists>out. apply_anonymization original ents = Inr out
     \<and> out = fold (\<lambda>entity result. splice result entity)
               (sort_key (\<lambda>x. - start (hd (positions x))) (filter selected ents)) original
     \<and> out = rewrite_spec original ents
     \<and> int (length out)
         = int (length original) - (\<Sum>e\<leftarrow>filter selected ents. span_length e)
           + (\<Sum>e\<leftarrow>filter selected ents. int (length (replacement e)))
     \<and> (\<forall>i. 0 \<le> i \<and> i < int (length original) \<and> \<not> in_span (filter selected ents) i
            \<longrightarrow> nat (i + shift (filter selected ents) i) < length out
                \<and> out ! nat (i + shift (filter selected ents) i) = original ! nat i)
     \<and> (\<forall>e\<in>set (filter selected ents).
            take (length (replacement e))
              (drop (nat (start (hd (positions e))
                          + shift (filter selected ents) (start (hd (positions e))))) out)
            = replacement e)"
proof -
  let ?sel = "filter selected ents"
  let ?f = "\<lambda>e. start (hd (positions e))"
  let ?asc = "sort_key ?f ?sel"
  let ?out = "rewrite_spec original ents"
  note lo = valid_selection_laid_out [OF assms]
  have run: "apply_anonymization original ents = Inr ?out"
    by (rule apply_anonymization_valid [OF assms])
  from assms have "\<not> list_ex (\<lambda>e. positions e = []) ?sel"
    by (simp add: valid_selection_def Let_def list_all_iff list_ex_iff)
  then have "apply_anonymization original ents
      = Inr (fold (\<lambda>entity result. splice result entity)
               (sort_key (\<lambda>x. - start (hd (positions x))) ?sel) original)"
    by (simp add: apply_anonymization_def Let_def)
  with run have alg: "?out = fold (\<lambda>entity result. splice result entity)
               (sort_key (\<lambda>x. - start (hd (positions x))) ?sel) original"
    by simp
  have outside: "nat (i + shift ?sel i) < length ?out \<and> ?out ! nat (i + shift ?sel i) = original ! nat i"
    if "0 \<le> i \<and> i < int (length original) \<and> \<not> in_span ?sel i" for i
    using outside_preserved [OF lo, of i] that
    by (simp add: rewrite_spec_def shift_sort_key in_span_sort_key)
  have inplace: "take (length (replacement e))
              (drop (nat (?f e + shift ?sel (?f e))) ?out) = replacement e"
    if "e \<in> set ?sel" for e
    using replacement_in_place [OF lo, of e] that
    by (simp add: rewrite_spec_def shift_sort_key)
  show ?thesis
    using run alg length_rewrite_spec [OF assms] outside inplace by blast
qed

theorem apply_anonymization_correct_witness:
  "valid_selection ''Tel 0612345678, mail a@b.fr''
     [\<lparr>ident = ''1'', etext = ''a@b.fr'', etype = EMAIL, source = REGEX, confidence = 1,
        replacement = ''[mail]'', positions = [\<lparr>start = 21, end_pos = 27\<rparr>], selected = True\<rparr>,
      \<lparr>ident = ''2'', etext = ''mail'', etype = LEGAL, source = MANUAL, confidence = 1,
        replacement = ''X'', positions = [\<lparr>start = 16, end_pos = 20\<rparr>], selected = False\<rparr>,
      \<lparr>ident = ''3'', etext = ''0612345678'', etype = PHONE, source = REGEX, confidence = 1,
        replacement = ''06 XX'', positions = [\<lparr>start = 4, end_pos = 14\<rparr>], selected = True\<rparr>]
   \<and> apply_anonymization ''Tel 0612345678, mail a@b.fr''
     [\<lparr>ident = ''1'', etext = ''a@b.fr'', etype = EMAIL, source = REGEX, confidence = 1,
        replacement = ''[mail]'', positions = [\<lparr>start = 21, end_pos = 27\<rparr>], selected = True\<rparr>,
      \<lparr>ident = ''2'', etext = ''mail'', etype = LEGAL, source = MANUAL, confidence = 1,
        replacement = ''X'', positions = [\<lparr>start = 16, end_pos = 20\<rparr>], selected = False\<rparr>,
      \<lparr>ident = ''3'', etext = ''0612345678'', etype = PHONE, source = REGEX, confidence = 1,
        replacement = ''06 XX'', positions = [\<lparr>start = 4, end_pos = 14\<rparr>], selected = True\<rparr>]
     = Inr ''Tel 06 XX, mail [mail]''"
proof -
  let ?c = "''Tel 0612345678, mail a@b.fr''"
  let ?es = "[\<lparr>ident = ''1'', etext = ''a@b.fr'', etype = EMAIL, source = REGEX, confidence = 1,
        replacement = ''[mail]'', positions = [\<lparr>start = 21, end_pos = 27\<rparr>], selected = True\<rparr>,
      \<lparr>ident = ''2'', etext = ''mail'', etype = LEGAL, source = MANUAL, confidence = 1,
        replacement = ''X'', positions = [\<lparr>start = 16, end_pos = 20\<rparr>], selected = False\<rparr>,
      \<lparr>ident = ''3'', etext = ''0612345678'', etype = PHONE, source = REGEX, confidence = 1,
        replacement = ''06 XX'', positions = [\<lparr>start = 4, end_pos = 14\<rparr>], selected = True\<rparr>]"
  have v: "valid_selection ?c ?es"
    by (simp add: valid_selection_def first_positions_def within_text_def disjoint_spans_def)
  have r: "rewrite_spec ?c ?es = ''Tel 06 XX, mail [mail]''"
    by (simp add: rewrite_spec_def)
  from apply_anonymization_correct [OF v] r v show ?thesis by auto
qed

text \<open>
  Claim C7. For every original text and every entity list whose selected spans do
  not overlap pairwise (each span a position with \<open>start < end\<close>), the output of
  \<open>apply_anonymization\<close> does not depend on the order of the input list: every
  permutation of the list gives the identical result.
\<close>

theorem apply_anonymization_order_independent:
  assumes "mset ents' = mset ents"
    and "list_all (\<lambda>p. start p < end_pos p) (first_positions (filter selected ents))"
    and "non_overlapping (first_positions (filter selected ents))"
  shows "apply_anonymization original ents' = apply_anonymization original ents"
proof -
  let ?sel = "filter selected ents" and ?sel' = "filter selected ents'"
  let ?g = "\<lambda>x. - start (hd (positions x))"
  have m: "mset ?sel' = mset ?sel" using assms(1) by simp
  then have "set ?sel' = set ?sel" by (rule mset_eq_setD)
  then have ex: "list_ex (\<lambda>e. positions e = []) ?sel' = list_ex (\<lambda>e. positions e = []) ?sel"
    by (simp only: list_ex_iff)
  have "distinct (map start (first_positions ?sel))"
    by (rule non_overlapping_distinct_starts [OF assms(2,3)])
  moreover have "inj_on uminus (set (map start (first_positions ?sel)))"
    by (simp add: inj_on_def)
  ultimately have "distinct (map uminus (map start (first_positions ?sel)))"
    by (simp only: distinct_map simp_thms)
  then have "distinct (map ?g ?sel)"
    by (simp add: first_positions_def comp_def)
  from sort_key_permutation [OF m this] ex show ?thesis
    by (simp add: apply_anonymization_def Let_def)
qed

theorem apply_anonymization_order_independent_witness:
  "mset [\<lparr>ident = ''3'', etext = ''0612345678'', etype = PHONE, source = REGEX, confidence = 1,
          replacement = ''06 XX'', positions = [\<lparr>start = 4, end_pos = 14\<rparr>], selected = True\<rparr>,
         \<lparr>ident = ''1'', etext = ''a@b.fr'', etype = EMAIL, source = REGEX, confidence = 1,
          replacement = ''[mail]'', positions = [\<lparr>start = 21, end_pos = 27\<rparr>], selected = True\<rparr>]
   = mset [\<lparr>ident = ''1'', etext = ''a@b.fr'', etype = EMAIL, source = REGEX, confidence = 1,
          replacement = ''[mail]'', positions = [\<lparr>start = 21, end_pos = 27\<rparr>], selected = True\<rparr>,
         \<lparr>ident = ''3'', etext = ''0612345678'', etype = PHONE, source = REGEX, confidence = 1,
          replacement = ''06 XX'', positions = [\<lparr>start = 4, end_pos = 14\<rparr>], selected = True\<rparr>]
   \<and> apply_anonymization ''Tel 0612345678, mail a@b.fr''
        [\<lparr>ident = ''3'', etext = ''0612345678'', etype = PHONE, source = REGEX, confidence = 1,
          replacement = ''06 XX'', positions = [\<lparr>start = 4, end_pos = 14\<rparr>], selected = True\<rparr>,
         \<lparr>ident = ''1'', etext = ''a@b.fr'', etype = EMAIL, source = REGEX, confidence = 1,
          replacement = ''[mail]'', positions = [\<lparr>start = 21, end_pos = 27\<rparr>], selected = True\<rparr>]
     = apply_anonymization ''Tel 0612345678, mail a@b.fr''
        [\<lparr>ident = ''1'', etext = ''a@b.fr'', etype = EMAIL, source = REGEX, confidence = 1,
          replacement = ''[mail]'', positions = [\<lparr>start = 21, end_pos = 27\<rparr>], selected = True\<rparr>,
         \<lparr>ident = ''3'', etext = ''0612345678'', etype = PHONE, source = REGEX, confidence = 1,
          replacement = ''06 XX'', positions = [\<lparr>start = 4, end_pos = 14\<rparr>], selected = True\<rparr>]
   \<and> apply_anonymization ''Tel 0612345678, mail a@b.fr''
        [\<lparr>ident = ''1'', etext = ''a@b.fr'', etype = EMAIL, source = REGEX, confidence = 1,
          replacement = ''[mail]'', positions = [\<lparr>start = 21, end_pos = 27\<rparr>], selected = True\<rparr>,
         \<lparr>ident = ''3'', etext = ''0612345678'', etype = PHONE, source = REGEX, confidence = 1,
          replacement = ''06 XX'', positions = [\<lparr>start = 4, end_pos = 14\<rparr>], selected = True\<rparr>]
     = Inr ''Tel 06 XX, mail [mail]''"
proof -
  let ?a = "\<lparr>ident = ''1'', etext = ''a@b.fr'', etype = EMAIL, source = REGEX, confidence = 1,
          replacement = ''[mail]'', positions = [\<lparr>start = 21, end_pos = 27\<rparr>], selected = True\<rparr>"
  let ?b = "\<lparr>ident = ''3'', etext = ''0612345678'', etype = PHONE, source = REGEX, confidence = 1,
          replacement = ''06 XX'', positions = [\<lparr>start = 4, end_pos = 14\<rparr>], selected = True\<rparr>"
  have m: "mset [?b, ?a] = mset [?a, ?b]" by simp
  have p: "list_all (\<lambda>p. start p < end_pos p) (first_positions (filter selected [?a, ?b]))"
    by (simp add: first_positions_def)
  have n: "non_overlapping (first_positions (filter selected [?a, ?b]))"
    by (simp add: first_positions_def disjoint_spans_def)
  have v: "apply_anonymization ''Tel 0612345678, mail a@b.fr'' [?a, ?b] = Inr ''Tel 06 XX, mail [mail]''"
    by (simp add: apply_anonymization_def splice_def py_slice_to_def py_slice_from_def)
  from apply_anonymization_order_independent [OF m p n, of "''Tel 0612345678, mail a@b.fr''"] m v
  show ?thesis by simp
qed

section \<open>The deduplicator keeps the first entity of every key\<close>

lemma dedup_key_key_of: "positions e \<noteq> [] \<Longrightarrow> dedup_key e = Inr (key_of e)"
  by (cases "positions e") (simp_all add: dedup_key_def key_of_def)

lemma dedup_loop_keep_unseen:
  "list_all (\<lambda>e. positions e \<noteq> []) rest \<Longrightarrow>
   dedup_loop rest unique_entities seen = Inr (unique_entities @ keep_unseen seen rest)"
proof (induction rest arbitrary: unique_entities seen)
  case Nil
  then show ?case by simp
next
  case (Cons e rest)
  then show ?case by (simp add: dedup_key_key_of)
qed

lemma map_nth_filter_upt_Cons:
  "map (\<lambda>i. (x # xs) ! i) (filter Q [0..<length (x # xs)])
     = (if Q 0 then [x] else []) @ map (\<lambda>i. xs ! i) (filter (\<lambda>i. Q (Suc i)) [0..<length xs])"
proof -
  have "[0..<length (x # xs)] = 0 # map Suc [0..<length xs]"
    by (simp add: upt_conv_Cons map_Suc_upt del: upt_Suc)
  then show ?thesis by (simp add: filter_map comp_def)
qed

lemma keep_unseen_indices:
  "keep_unseen seen es
     = map (\<lambda>i. es ! i)
         (filter (\<lambda>i. key_of (es ! i) \<notin> seen \<and> (\<forall>j<i. key_of (es ! j) \<noteq> key_of (es ! i)))
            [0..<length es])"
proof (induction es arbitrary: seen)
  case Nil
  then show ?case by simp
next
  case (Cons e es)
  let ?P = "\<lambda>s i. key_of (es ! i) \<notin> s \<and> (\<forall>j<i. key_of (es ! j) \<noteq> key_of (es ! i))"
  let ?Q = "\<lambda>i. key_of ((e # es) ! i) \<notin> seen
                \<and> (\<forall>j<i. key_of ((e # es) ! j) \<noteq> key_of ((e # es) ! i))"
  have Q_Suc: "?Q (Suc i) = (key_of (es ! i) \<notin> seen \<and> key_of e \<noteq> key_of (es ! i)
                     \<and> (\<forall>j<i. key_of (es ! j) \<noteq> key_of (es ! i)))" for i
    by (auto simp: All_less_Suc2)
  have Q_0: "?Q 0 = (key_of e \<notin> seen)" by simp
  note split = map_nth_filter_upt_Cons [of e es ?Q]
  show ?case
  proof (cases "key_of e \<in> seen")
    case True
    then have "(\<lambda>i. ?Q (Suc i)) = ?P seen"
      unfolding Q_Suc by auto
    with split Q_0 True
    have "map (\<lambda>i. (e # es) ! i) (filter ?Q [0..<length (e # es)])
             = map (\<lambda>i. es ! i) (filter (?P seen) [0..<length es])"
      by (simp only: if_False simp_thms append_Nil)
    moreover have "keep_unseen seen (e # es) = keep_unseen seen es"
      using True by simp
    ultimately show ?thesis using Cons.IH [of seen] by (simp only:)
  next
    case False
    have "(\<lambda>i. ?Q (Suc i)) = ?P (insert (key_of e) seen)"
      unfolding Q_Suc by auto
    with split Q_0 False
    have "map (\<lambda>i. (e # es) ! i) (filter ?Q [0..<length (e # es)])
             = e # map (\<lambda>i. es ! i) (filter (?P (insert (key_of e) seen)) [0..<length es])"
      by (simp only: if_True simp_thms append_Cons append_Nil)
    moreover have "keep_unseen seen (e # es) = e # keep_unseen (insert (key_of e) seen) es"
      using False by simp
    ultimately show ?thesis using Cons.IH [of "insert (key_of e) seen"] by (simp only:)
  qed
qed

lemma keep_unseen_first_occurrences: "keep_unseen {} es = first_occurrences es"
  by (simp add: keep_unseen_indices first_occurrences_def)

lemma set_keep_unseen: "set (keep_unseen seen es) \<subseteq> set es"
  by (induction es arbitrary: seen) auto

lemma keys_keep_unseen:
  "key_of ` set (keep_unseen seen es) \<inter> seen = {} \<and> distinct (map key_of (keep_unseen seen es))"
proof (induction es arbitrary: seen)
  case Nil
  then show ?case by simp
next
  case (Cons e es)
  show ?case
  proof (cases "key_of e \<in> seen")
    case True
    then show ?thesis using Cons.IH [of seen] by simp
  next
    case False
    then show ?thesis using Cons.IH [of "insert (key_of e) seen"] by auto
  qed
qed

lemma keep_unseen_fixed:
  "distinct (map key_of es) \<Longrightarrow> key_of ` set es \<inter> seen = {} \<Longrightarrow> keep_unseen seen es = es"
proof (induction es arbitrary: seen)
  case Nil
  then show ?case by simp
next
  case (Cons e es)
  from Cons.prems have "key_of e \<notin> seen" "distinct (map key_of es)"
    "key_of ` set es \<inter> insert (key_of e) seen = {}" by auto
  with Cons.IH [of "insert (key_of e) seen"] show ?case by simp
qed

text \<open>
  Claim C8. The deduplicator is idempotent: on every entity list (each entity with a
  first position, as the detectors produce them) the deduplication succeeds, and
  applying it to its own output yields that output again, the same entities in the
  same order.
\<close>

theorem deduplicate_idempotent:
  assumes "list_all (\<lambda>e. positions e \<noteq> []) all_entities"
  shows "\<exists>unique_entities. deduplicate all_entities = Inr unique_entities
           \<and> deduplicate unique_entities = Inr unique_entities"
proof -
  let ?u = "keep_unseen {} all_entities"
  have run: "deduplicate all_entities = Inr ?u"
    using dedup_loop_keep_unseen [OF assms, of "[]" "{}"] by (simp add: deduplicate_def)
  have "list_all (\<lambda>e. positions e \<noteq> []) ?u"
    using assms set_keep_unseen [of "{}" all_entities] by (auto simp: list_all_iff)
  then have "deduplicate ?u = Inr (keep_unseen {} ?u)"
    using dedup_loop_keep_unseen [of ?u "[]" "{}"] by (simp add: deduplicate_def)
  moreover have "keep_unseen {} ?u = ?u"
    using keys_keep_unseen [of "{}" all_entities] by (intro keep_unseen_fixed) simp_all
  ultimately show ?thesis using run by simp
qed

theorem deduplicate_idempotent_witness:
  "list_all (\<lambda>e. positions e \<noteq> [])
     [\<lparr>ident = ''1'', etext = ''RG 24/12345'', etype = LEGAL, source = REGEX, confidence = 1,
        replacement = ''[R]'', positions = [\<lparr>start = 0, end_pos = 11\<rparr>], selected = True\<rparr>,
      \<lparr>ident = ''2'', etext = ''RG 24/12345'', etype = ORGANIZATION, source = NER, confidence = 0.85,
        replacement = ''Organisation A'', positions = [\<lparr>start = 0, end_pos = 11\<rparr>], selected = True\<rparr>]
   \<and> deduplicate
     [\<lparr>ident = ''1'', etext = ''RG 24/12345'', etype = LEGAL, source = REGEX, confidence = 1,
        replacement = ''[R]'', positions = [\<lparr>start = 0, end_pos = 11\<rparr>], selected = True\<rparr>,
      \<lparr>ident = ''2'', etext = ''RG 24/12345'', etype = ORGANIZATION, source = NER, confidence = 0.85,
        replacement = ''Organisation A'', positions = [\<lparr>start = 0, end_pos = 11\<rparr>], selected = True\<rparr>]
   = Inr
     [\<lparr>ident = ''1'', etext = ''RG 24/12345'', etype = LEGAL, source = REGEX, confidence = 1,
        replacement = ''[R]'', positions = [\<lparr>start = 0, end_pos = 11\<rparr>], selected = True\<rparr>]
   \<and> deduplicate
     [\<lparr>ident = ''1'', etext = ''RG 24/12345'', etype = LEGAL, source = REGEX, confidence = 1,
        replacement = ''[R]'', positions = [\<lparr>start = 0, end_pos = 11\<rparr>], selected = True\<rparr>]
   = Inr
     [\<lparr>ident = ''1'', etext = ''RG 24/12345'', etype = LEGAL, source = REGEX, confidence = 1,
        replacement = ''[R]'', positions = [\<lparr>start = 0, end_pos = 11\<rparr>], selected = True\<rparr>]"
proof -
  let ?a = "\<lparr>ident = ''1'', etext = ''RG 24/12345'', etype = LEGAL, source = REGEX, confidence = 1,
        replacement = ''[R]'', positions = [\<lparr>start = 0, end_pos = 11\<rparr>], selected = True\<rparr>"
  let ?b = "\<lparr>ident = ''2'', etext = ''RG 24/12345'', etype = ORGANIZATION, source = NER, confidence = 0.85,
        replacement = ''Organisation A'', positions = [\<lparr>start = 0, end_pos = 11\<rparr>], selected = True\<rparr>"
  have p: "list_all (\<lambda>e. positions e \<noteq> []) [?a, ?b]" by simp
  have r: "deduplicate [?a, ?b] = Inr [?a]"
    by (simp add: deduplicate_def dedup_key_def)
  from deduplicate_idempotent [OF p] r p show ?thesis by auto
qed

section \<open>The SIRET rule\<close>

lemma rmatch_Times_Atom:
  "i \<le> length s \<Longrightarrow> rmatch ic (Times n (Atom a)) s i
     = (if i + n \<le> length s \<and> (\<forall>j<n. atom_match ic a (s ! (i + j))) then [i + n] else [])"
proof (induction n)
  case 0
  then show ?case by simp
next
  case (Suc n)
  let ?f = "\<lambda>ends. concat (map (rmatch ic (Atom a) s) ends)"
  have "rmatch ic (Times (Suc n) (Atom a)) s i = ?f (rmatch ic (Times n (Atom a)) s i)"
    by simp
  also have "\<dots> = (if i + Suc n \<le> length s \<and> (\<forall>j<Suc n. atom_match ic a (s ! (i + j)))
                    then [i + Suc n] else [])"
    unfolding Suc.IH [OF Suc.prems] by (auto simp: less_Suc_eq)
  finally show ?case .
qed

lemma is_decimal_is_word: "is_decimal c \<Longrightarrow> is_word c"
  by (simp add: is_decimal_def is_word_def is_alnum_def Let_def)

lemma all_decimal_slice:
  "i + n \<le> length s \<Longrightarrow>
   list_all is_decimal (take n (drop i s)) = (\<forall>j<n. is_decimal (s ! (i + j)))"
  by (simp add: list_all_length)

lemma upt_split: "a \<le> b \<Longrightarrow> b \<le> c \<Longrightarrow> [a..<c] = [a..<b] @ [b..<c]"
  by (metis le_add_diff_inverse upt_add_eq_append)

lemma siret_rmatch_unfold:
  "rmatch False siret_pattern s i
     = (if at_boundary s i
        then concat (map (rmatch False WordB s) (rmatch False (Times 14 (Atom Digit)) s i))
        else [])"
  by (simp add: siret_pattern_def del: rmatch.simps(7))

lemma siret_rmatch:
  assumes "i \<le> length s"
  shows "rmatch False siret_pattern s i = (if delimited_digits s i 14 then [i + 14] else [])"
proof (cases "i + 14 \<le> length s \<and> (\<forall>j<14. is_decimal (s ! (i + j)))")
  case True
  then have d: "is_decimal (s ! (i + j))" if "j < 14" for j
    using that by blast
  from d [of 0] d [of 13] True
  have first: "is_word (s ! i)" and last: "is_word (s ! (i + 13))" and lt: "i < length s"
    by (simp_all add: is_decimal_is_word)
  from last have last': "is_word (s ! (13 + i))" by (simp add: add.commute)
  have b1: "at_boundary s i = (i = 0 \<or> \<not> is_word (s ! (i - 1)))"
    using first lt by (auto simp: at_boundary_def)
  have b2: "at_boundary s (i + 14) = (i + 14 = length s \<or> \<not> is_word (s ! (i + 14)))"
    using last last' True by (auto simp: at_boundary_def)
  have t: "rmatch False (Times 14 (Atom Digit)) s i = [i + 14]"
    using True by (simp add: rmatch_Times_Atom [OF assms] del: rmatch.simps(7))
  from True have dd: "delimited_digits s i 14
      = ((i = 0 \<or> \<not> is_word (s ! (i - 1))) \<and> (i + 14 = length s \<or> \<not> is_word (s ! (i + 14))))"
    by (simp add: delimited_digits_def all_decimal_slice)
  show ?thesis
    unfolding dd siret_rmatch_unfold t using b1 b2 by simp
next
  case False
  have "\<not> delimited_digits s i 14"
  proof
    assume "delimited_digits s i 14"
    then have le: "i + 14 \<le> length s" and la: "list_all is_decimal (take 14 (drop i s))"
      by (simp_all add: delimited_digits_def)
    from la have "\<forall>j<14. is_decimal (s ! (i + j))"
      by (simp only: all_decimal_slice [OF le])
    with le False show False by blast
  qed
  moreover have "rmatch False (Times 14 (Atom Digit)) s i = []"
    using False by (simp add: rmatch_Times_Atom [OF assms] del: rmatch.simps(7))
  ultimately show ?thesis
    unfolding siret_rmatch_unfold by simp
qed

lemma siret_match_at:
  "i \<le> length s \<Longrightarrow>
   match_at False siret_pattern s i = (if delimited_digits s i 14 then Some (i + 14) else None)"
  by (simp add: match_at_def siret_rmatch)

lemma no_delimited_inside:
  assumes "delimited_digits s i 14" and "i < j" and "j < i + 14"
  shows "\<not> delimited_digits s j 14"
proof
  assume j: "delimited_digits s j 14"
  from assms(1) have le: "i + 14 \<le> length s"
    and "list_all is_decimal (take 14 (drop i s))"
    by (simp_all add: delimited_digits_def)
  then have "i + 14 \<le> length s" "\<forall>k<14. is_decimal (s ! (i + k))"
    by (simp_all only: all_decimal_slice [OF le])
  moreover have "j - 1 = i + (j - 1 - i)" "j - 1 - i < 14" using assms(2,3) by simp_all
  ultimately have "is_decimal (s ! (j - 1))" by metis
  then have "is_word (s ! (j - 1))" by (rule is_decimal_is_word)
  with j assms(2) show False by (simp add: delimited_digits_def)
qed

lemma siret_finditer_from:
  "finditer_from False siret_pattern s pos
     = map (\<lambda>i. (i, i + 14)) (filter (\<lambda>i. delimited_digits s i 14) [pos..<Suc (length s)])"
proof (induction "False" siret_pattern s pos rule: finditer_from.induct)
  case (1 s pos)
  show ?case
  proof (cases "length s < pos")
    case True
    then show ?thesis by (simp add: finditer_from.simps)
  next
    case False
    then have le: "pos \<le> length s" by simp
    have up: "[pos..<Suc (length s)] = pos # [Suc pos..<Suc (length s)]"
      using le by (simp add: upt_conv_Cons del: upt_Suc)
    show ?thesis
    proof (cases "delimited_digits s pos 14")
      case no: False
      then have m: "match_at False siret_pattern s pos = None"
        using le by (simp add: siret_match_at)
      from "1.hyps"(1) [OF False m] no m False show ?thesis
        unfolding up by (simp add: finditer_from.simps [of False siret_pattern s pos] del: upt_Suc)
    next
      case yes: True
      then have m: "match_at False siret_pattern s pos = Some (pos + 14)"
        using le by (simp add: siret_match_at)
      from yes have e: "pos + 14 \<le> length s" by (simp add: delimited_digits_def)
      have "[Suc pos..<Suc (length s)] = [Suc pos..<pos + 14] @ [pos + 14..<Suc (length s)]"
        using e by (intro upt_split) simp_all
      moreover have "filter (\<lambda>i. delimited_digits s i 14) [Suc pos..<pos + 14] = []"
        using no_delimited_inside [OF yes] by (auto simp: filter_empty_conv)
      ultimately have "filter (\<lambda>i. delimited_digits s i 14) [pos..<Suc (length s)]
          = pos # filter (\<lambda>i. delimited_digits s i 14) [pos + 14..<Suc (length s)]"
        unfolding up using yes by simp
      moreover have "finditer_from False siret_pattern s pos
          = (pos, pos + 14) # finditer_from False siret_pattern s (pos + 14)"
        using m False by (simp add: finditer_from.simps [of False siret_pattern s pos])
      moreover have "finditer_from False siret_pattern s (pos + 14)
          = map (\<lambda>i. (i, i + 14)) (filter (\<lambda>i. delimited_digits s i 14) [pos + 14..<Suc (length s)])"
        using "1.hyps"(2) [OF False m] by simp
      ultimately show ?thesis by simp
    qed
  qed
qed

section \<open>The entities of the pattern extractor\<close>

lemma no_ident_new_entity:
  "no_ident (new_entity uuid n (group s m) ty REGEX 1 repl
               [\<lparr>start = int (fst m), end_pos = int (snd m)\<rparr>])
     = match_entity s ty repl m"
  by (simp add: no_ident_def new_entity_def match_entity_def)

lemma append_matches_no_ident:
  "\<exists>out. append_matches uuid k s ty repl ms ents = ents @ out
         \<and> map no_ident out = map (match_entity s ty repl) ms"
proof (induction ms arbitrary: ents)
  case Nil
  show ?case by (simp add: append_matches_def)
next
  case (Cons m ms)
  let ?x = "new_entity uuid (k + length ents) (group s m) ty REGEX 1 repl
              [\<lparr>start = int (fst m), end_pos = int (snd m)\<rparr>]"
  from Cons.IH [of "ents @ [?x]"] obtain out where
    out: "append_matches uuid k s ty repl ms (ents @ [?x]) = (ents @ [?x]) @ out"
      "map no_ident out = map (match_entity s ty repl) ms" by blast
  have "append_matches uuid k s ty repl (m # ms) ents
      = append_matches uuid k s ty repl ms (ents @ [?x])"
    by (simp add: append_matches_def)
  with out have "append_matches uuid k s ty repl (m # ms) ents = ents @ (?x # out)
      \<and> map no_ident (?x # out) = map (match_entity s ty repl) (m # ms)"
    by (simp add: no_ident_new_entity)
  then show ?case by blast
qed

lemma fold_append_matches_no_ident:
  "\<exists>out. fold (\<lambda>pattern. append_matches uuid k s ty repl (finditer ic pattern s)) patterns ents
           = ents @ out
         \<and> map no_ident out
           = concat (map (\<lambda>p. map (match_entity s ty repl) (finditer ic p s)) patterns)"
proof (induction patterns arbitrary: ents)
  case Nil
  show ?case by simp
next
  case (Cons p ps)
  from append_matches_no_ident [of uuid k s ty repl "finditer ic p s" ents] obtain o1 where
    o1: "append_matches uuid k s ty repl (finditer ic p s) ents = ents @ o1"
      "map no_ident o1 = map (match_entity s ty repl) (finditer ic p s)" by blast
  from Cons.IH [of "ents @ o1"] obtain o2 where
    o2: "fold (\<lambda>pattern. append_matches uuid k s ty repl (finditer ic pattern s)) ps (ents @ o1)
           = (ents @ o1) @ o2"
      "map no_ident o2
           = concat (map (\<lambda>p. map (match_entity s ty repl) (finditer ic p s)) ps)" by blast
  from o1 o2 have "fold (\<lambda>pattern. append_matches uuid k s ty repl (finditer ic pattern s)) (p # ps) ents
           = ents @ (o1 @ o2)
         \<and> map no_ident (o1 @ o2)
           = concat (map (\<lambda>p. map (match_entity s ty repl) (finditer ic p s)) (p # ps))"
    by simp
  then show ?case by blast
qed

lemma luhn_check_decimal:
  "list_all is_decimal t \<Longrightarrow> \<exists>b. luhn_check t = Inr b"
  by (simp add: luhn_check_def digits_of_str_decimal list_all_iff)

lemma siret_loop_no_ident:
  assumes "\<forall>m\<in>set ms. list_all is_decimal (group s m)"
  shows "\<exists>out. siret_loop uuid k s ms ents = Inr (ents @ out)
         \<and> map no_ident out
           = map (match_entity s SIRET siret_replacement)
               (filter (\<lambda>m. luhn_check (group s m) = Inr True) ms)"
  using assms
proof (induction ms arbitrary: ents)
  case Nil
  show ?case by simp
next
  case (Cons m ms)
  from Cons.prems obtain b where b: "luhn_check (group s m) = Inr b"
    using luhn_check_decimal [of "group s m"] by auto
  from Cons.prems have rest: "\<forall>m\<in>set ms. list_all is_decimal (group s m)" by simp
  show ?case
  proof (cases b)
    case True
    let ?x = "new_entity uuid (k + length ents) (group s m) SIRET REGEX 1 siret_replacement
              [\<lparr>start = int (fst m), end_pos = int (snd m)\<rparr>]"
    from Cons.IH [OF rest, of "ents @ [?x]"] obtain out where
      out: "siret_loop uuid k s ms (ents @ [?x]) = Inr ((ents @ [?x]) @ out)"
        "map no_ident out = map (match_entity s SIRET siret_replacement)
               (filter (\<lambda>m. luhn_check (group s m) = Inr True) ms)" by blast
    from out b True have "siret_loop uuid k s (m # ms) ents = Inr (ents @ (?x # out))
         \<and> map no_ident (?x # out)
           = map (match_entity s SIRET siret_replacement)
               (filter (\<lambda>m. luhn_check (group s m) = Inr True) (m # ms))"
      by (simp add: no_ident_new_entity Let_def)
    then show ?thesis by blast
  next
    case False
    from Cons.IH [OF rest, of ents] obtain out where
      out: "siret_loop uuid k s ms ents = Inr (ents @ out)"
        "map no_ident out = map (match_entity s SIRET siret_replacement)
               (filter (\<lambda>m. luhn_check (group s m) = Inr True) ms)" by blast
    from out b False have "siret_loop uuid k s (m # ms) ents = Inr (ents @ out)
         \<and> map no_ident out
           = map (match_entity s SIRET siret_replacement)
               (filter (\<lambda>m. luhn_check (group s m) = Inr True) (m # ms))"
      by (simp add: Let_def)
    then show ?thesis by blast
  qed
qed

lemma siret_finditer:
  "finditer False siret_pattern s
     = map (\<lambda>i. (i, i + 14)) (filter (\<lambda>i. delimited_digits s i 14) [0..<Suc (length s)])"
  by (simp only: finditer_def siret_finditer_from)

lemma siret_groups_decimal:
  "\<forall>m\<in>set (finditer False siret_pattern s). list_all is_decimal (group s m)"
  by (auto simp: siret_finditer group_def delimited_digits_def simp del: upt_Suc)

lemma siret_accepted:
  "filter (\<lambda>m. luhn_check (group s m) = Inr True) (finditer False siret_pattern s)
     = map (\<lambda>i. (i, i + 14))
         (filter (\<lambda>i. delimited_digits s i 14 \<and> luhn_check (take 14 (drop i s)) = Inr True)
            [0..<Suc (length s)])"
  by (simp add: siret_finditer filter_map comp_def group_def del: upt_Suc)

lemma extract_entities_no_ident:
  "\<exists>ents. extract_entities uuid k s = Inr ents \<and> map no_ident ents = pattern_entities s"
proof -
  from fold_append_matches_no_ident [where uuid = uuid and k = k and s = s and ty = PHONE
      and repl = generate_phone_replacement and ic = False and patterns = phone_patterns
      and ents = "[]"]
  obtain e1 where e1:
    "fold (\<lambda>pattern. append_matches uuid k s PHONE generate_phone_replacement (finditer False pattern s))
       phone_patterns [] = e1"
    "map no_ident e1 = concat (map (\<lambda>p. map (match_entity s PHONE generate_phone_replacement)
                                        (finditer False p s)) phone_patterns)"
    by auto
  from append_matches_no_ident [where uuid = uuid and k = k and s = s and ty = EMAIL
      and repl = "''[email.anonymise@exemple.fr]''" and ms = "finditer False email_pattern s"
      and ents = e1]
  obtain o2 where e2:
    "append_matches uuid k s EMAIL ''[email.anonymise@exemple.fr]'' (finditer False email_pattern s) e1
       = e1 @ o2"
    "map no_ident o2 = map (match_entity s EMAIL ''[email.anonymise@exemple.fr]'')
                         (finditer False email_pattern s)"
    by blast
  from siret_loop_no_ident [OF siret_groups_decimal, where uuid = uuid and k = k and ents = "e1 @ o2"]
  obtain o3 where e3:
    "siret_loop uuid k s (finditer False siret_pattern s) (e1 @ o2) = Inr ((e1 @ o2) @ o3)"
    "map no_ident o3 = map (match_entity s SIRET siret_replacement)
       (filter (\<lambda>m. luhn_check (group s m) = Inr True) (finditer False siret_pattern s))"
    by blast
  from append_matches_no_ident [where uuid = uuid and k = k and s = s and ty = SSN
      and repl = ssn_replacement and ms = "finditer False ssn_pattern s"
      and ents = "(e1 @ o2) @ o3"]
  obtain o4 where e4:
    "append_matches uuid k s SSN ssn_replacement (finditer False ssn_pattern s) ((e1 @ o2) @ o3)
       = ((e1 @ o2) @ o3) @ o4"
    "map no_ident o4 = map (match_entity s SSN ssn_replacement) (finditer False ssn_pattern s)"
    by blast
  from fold_append_matches_no_ident [where uuid = uuid and k = k and s = s and ty = ADDRESS
      and repl = address_replacement and ic = True and patterns = address_patterns
      and ents = "((e1 @ o2) @ o3) @ o4"]
  obtain o5 where e5:
    "fold (\<lambda>pattern. append_matches uuid k s ADDRESS address_replacement (finditer True pattern s))
       address_patterns (((e1 @ o2) @ o3) @ o4) = (((e1 @ o2) @ o3) @ o4) @ o5"
    "map no_ident o5 = concat (map (\<lambda>p. map (match_entity s ADDRESS address_replacement)
                                        (finditer True p s)) address_patterns)"
    by blast
  from fold_append_matches_no_ident [where uuid = uuid and k = k and s = s and ty = LEGAL
      and repl = legal_replacement and ic = True and patterns = legal_patterns
      and ents = "(((e1 @ o2) @ o3) @ o4) @ o5"]
  obtain o6 where e6:
    "fold (\<lambda>pattern. append_matches uuid k s LEGAL legal_replacement (finditer True pattern s))
       legal_patterns ((((e1 @ o2) @ o3) @ o4) @ o5) = ((((e1 @ o2) @ o3) @ o4) @ o5) @ o6"
    "map no_ident o6 = concat (map (\<lambda>p. map (match_entity s LEGAL legal_replacement)
                                        (finditer True p s)) legal_patterns)"
    by blast
  have "extract_entities uuid k s = Inr (((((e1 @ o2) @ o3) @ o4) @ o5) @ o6)"
    unfolding extract_entities_def Let_def e1(1) e2(1) e3(1) sum.case e4(1) e5(1) e6(1) ..
  moreover have "map no_ident (((((e1 @ o2) @ o3) @ o4) @ o5) @ o6) = pattern_entities s"
    unfolding pattern_entities_def map_append e1(2) e2(2) e3(2) e4(2) e5(2) e6(2) by simp
  ultimately show ?thesis by blast
qed

section \<open>The scenario of the specification\<close>

lemma scenario_phone_matches:
  "map (\<lambda>p. finditer False p ''Contactez-moi au 06.12.34.56.78 ou jean@exemple.fr.'') phone_patterns
     = [[(17, 31)], []]"
  by code_simp

lemma scenario_email_matches:
  "finditer False email_pattern ''Contactez-moi au 06.12.34.56.78 ou jean@exemple.fr.'' = [(35, 50)]"
  by code_simp

lemma scenario_siret_matches:
  "finditer False siret_pattern ''Contactez-moi au 06.12.34.56.78 ou jean@exemple.fr.'' = []"
  by code_simp

lemma scenario_ssn_matches:
  "finditer False ssn_pattern ''Contactez-moi au 06.12.34.56.78 ou jean@exemple.fr.'' = []"
  by code_simp

lemma scenario_address_matches:
  "map (\<lambda>p. finditer True p ''Contactez-moi au 06.12.34.56.78 ou jean@exemple.fr.'') address_patterns
     = [[], []]"
  by code_simp

lemma scenario_legal_matches:
  "map (\<lambda>p. finditer True p ''Contactez-moi au 06.12.34.56.78 ou jean@exemple.fr.'') legal_patterns
     = [[], [], []]"
  by code_simp

lemma fold_patterns:
  "fold (\<lambda>pattern. f (finditer ic pattern s)) patterns ents
     = fold f (map (\<lambda>p. finditer ic p s) patterns) ents"
  by (simp add: fold_map comp_def)

lemma scenario_extract:
  "extract_entities uuid k ''Contactez-moi au 06.12.34.56.78 ou jean@exemple.fr.''
     = Inr [\<lparr>ident = uuid k, etext = ''06.12.34.56.78'', etype = PHONE, source = REGEX,
              confidence = 1, replacement = ''06 XX XX XX XX'',
              positions = [\<lparr>start = 17, end_pos = 31\<rparr>], selected = True\<rparr>,
            \<lparr>ident = uuid (Suc k), etext = ''jean@exemple.fr'', etype = EMAIL, source = REGEX,
              confidence = 1, replacement = ''[email.anonymise@exemple.fr]'',
              positions = [\<lparr>start = 35, end_pos = 50\<rparr>], selected = True\<rparr>]"
  unfolding extract_entities_def Let_def fold_patterns
    scenario_phone_matches scenario_email_matches scenario_siret_matches scenario_ssn_matches
    scenario_address_matches scenario_legal_matches
  by (simp add: append_matches_def new_entity_def group_def generate_phone_replacement_def)

text \<open>
  Claim C9. On the text \<open>Contactez-moi au 06.12.34.56.78 ou jean@exemple.fr.\<close> in
  standard mode, the extraction produces exactly two entities: a phone entity with
  text \<open>06.12.34.56.78\<close> and replacement \<open>06 XX XX XX XX\<close>, and an email entity with
  text \<open>jean@exemple.fr\<close> and replacement \<open>[email.anonymise@exemple.fr]\<close>; the rewrite
  with both selected yields
  \<open>Contactez-moi au 06 XX XX XX XX ou [email.anonymise@exemple.fr].\<close>
\<close>

theorem scenario_standard_mode:
  "process_document uuid elapsed srv
     \<lparr>content = ''Contactez-moi au 06.12.34.56.78 ou jean@exemple.fr.'', filename = name,
      mode = STANDARD, ollama_config = config\<rparr>
   = Inr (\<lparr>entities =
             [\<lparr>ident = uuid (uuids_drawn srv), etext = ''06.12.34.56.78'', etype = PHONE,
                source = REGEX, confidence = 1, replacement = ''06 XX XX XX XX'',
                positions = [\<lparr>start = 17, end_pos = 31\<rparr>], selected = True\<rparr>,
              \<lparr>ident = uuid (Suc (uuids_drawn srv)), etext = ''jean@exemple.fr'', etype = EMAIL,
                source = REGEX, confidence = 1, replacement = ''[email.anonymise@exemple.fr]'',
                positions = [\<lparr>start = 35, end_pos = 50\<rparr>], selected = True\<rparr>],
           processing_time = elapsed, mode_used = STANDARD, total_occurrences = 2,
           spacy_available = (nlp srv \<noteq> None), ollama_available = False\<rparr>,
          srv\<lparr>uuids_drawn := uuids_drawn srv + 2\<rparr>)
   \<and> apply_anonymization ''Contactez-moi au 06.12.34.56.78 ou jean@exemple.fr.''
         [\<lparr>ident = uuid (uuids_drawn srv), etext = ''06.12.34.56.78'', etype = PHONE,
            source = REGEX, confidence = 1, replacement = ''06 XX XX XX XX'',
            positions = [\<lparr>start = 17, end_pos = 31\<rparr>], selected = True\<rparr>,
          \<lparr>ident = uuid (Suc (uuids_drawn srv)), etext = ''jean@exemple.fr'', etype = EMAIL,
            source = REGEX, confidence = 1, replacement = ''[email.anonymise@exemple.fr]'',
            positions = [\<lparr>start = 35, end_pos = 50\<rparr>], selected = True\<rparr>]
     = Inr ''Contactez-moi au 06 XX XX XX XX ou [email.anonymise@exemple.fr].''"
proof -
  have "apply_anonymization ''Contactez-moi au 06.12.34.56.78 ou jean@exemple.fr.''
         [\<lparr>ident = uuid (uuids_drawn srv), etext = ''06.12.34.56.78'', etype = PHONE,
            source = REGEX, confidence = 1, replacement = ''06 XX XX XX XX'',
            positions = [\<lparr>start = 17, end_pos = 31\<rparr>], selected = True\<rparr>,
          \<lparr>ident = uuid (Suc (uuids_drawn srv)), etext = ''jean@exemple.fr'', etype = EMAIL,
            source = REGEX, confidence = 1, replacement = ''[email.anonymise@exemple.fr]'',
            positions = [\<lparr>start = 35, end_pos = 50\<rparr>], selected = True\<rparr>]
     = Inr ''Contactez-moi au 06 XX XX XX XX ou [email.anonymise@exemple.fr].''"
    by (simp add: apply_anonymization_def splice_def py_slice_to_def py_slice_from_def)
  then show ?thesis
    by (simp add: process_document_def scenario_extract deduplicate_def dedup_key_def)
qed

section \<open>The endpoint\<close>

lemma no_ident_fields [simp]:
  "etext (no_ident e) = etext e" "etype (no_ident e) = etype e" "source (no_ident e) = source e"
  "confidence (no_ident e) = confidence e" "replacement (no_ident e) = replacement e"
  "positions (no_ident e) = positions e" "selected (no_ident e) = selected e"
  by (simp_all add: no_ident_def)

lemma match_entity_fields [simp]:
  "etext (match_entity s ty repl m) = group s m" "etype (match_entity s ty repl m) = ty"
  "source (match_entity s ty repl m) = REGEX" "confidence (match_entity s ty repl m) = 1"
  "replacement (match_entity s ty repl m) = repl"
  "positions (match_entity s ty repl m) = [\<lparr>start = int (fst m), end_pos = int (snd m)\<rparr>]"
  "selected (match_entity s ty repl m)"
  by (simp_all add: match_entity_def)

lemma concat_map_Nil: "concat (map (\<lambda>x. []) xs) = []"
  by (induction xs) simp_all

lemma filter_type_match_entities:
  "filter (\<lambda>e. etype e = ty') (map (match_entity s ty repl) ms)
     = (if ty = ty' then map (match_entity s ty repl) ms else [])"
  by (induction ms) simp_all

lemma siret_pattern_entities:
  "filter (\<lambda>e. etype e = SIRET) (pattern_entities s)
     = map (match_entity s SIRET siret_replacement)
         (filter (\<lambda>m. luhn_check (group s m) = Inr True) (finditer False siret_pattern s))"
  by (simp add: pattern_entities_def filter_concat comp_def filter_type_match_entities concat_map_Nil)

lemma pattern_entities_fields:
  "e \<in> set (pattern_entities s) \<Longrightarrow>
   confidence e = 1 \<and> source e = REGEX \<and> positions e \<noteq> [] \<and> selected e"
  by (auto simp: pattern_entities_def)

lemma filter_no_ident:
  "map no_ident (filter (\<lambda>e. etype e = ty) ents)
     = filter (\<lambda>e. etype e = ty) (map no_ident ents)"
  by (induction ents) simp_all

lemma extract_entities_fields:
  assumes "extract_entities uuid k s = Inr ents" and "e \<in> set ents"
  shows "confidence e = 1 \<and> source e = REGEX \<and> positions e \<noteq> [] \<and> selected e"
proof -
  from extract_entities_no_ident [of uuid k s] assms(1)
  have "map no_ident ents = pattern_entities s" by auto
  with assms(2) have "no_ident e \<in> set (pattern_entities s)"
    by (metis imageI set_map)
  from pattern_entities_fields [OF this] show ?thesis by simp
qed

lemma ner_loop_positions:
  "list_all (\<lambda>e. positions e \<noteq> []) ents \<Longrightarrow>
   list_all (\<lambda>e. positions e \<noteq> []) (fst (ner_loop uuid k spans ents self))"
proof (induction spans arbitrary: ents self)
  case Nil
  then show ?case by simp
next
  case (Cons ent spans)
  then show ?case by (simp add: new_entity_def)
qed

lemma ner_extract_entities_positions:
  "list_all (\<lambda>e. positions e \<noteq> []) (fst (ner_extract_entities uuid k self s))"
  using ner_loop_positions [of "[]"]
  by (simp add: ner_extract_entities_def split: option.splits)

lemma process_document_result:
  "\<exists>regex_entities ner_entities svc.
     extract_entities uuid (uuids_drawn srv) (content request) = Inr regex_entities
     \<and> (ner_entities, svc)
         = (if mode request = ADVANCED \<and> nlp srv \<noteq> None
            then ner_extract_entities uuid (uuids_drawn srv + length regex_entities)
                   (ner_service srv) (content request)
            else ([], ner_service srv))
     \<and> process_document uuid elapsed srv request
         = Inr (\<lparr>entities = first_occurrences (regex_entities @ ner_entities),
                 processing_time = elapsed,
                 mode_used = mode request,
                 total_occurrences = int (length (first_occurrences (regex_entities @ ner_entities))),
                 spacy_available = (nlp srv \<noteq> None),
                 ollama_available = False\<rparr>,
                srv\<lparr>ner_service := svc,
                    uuids_drawn := uuids_drawn srv + length regex_entities + length ner_entities\<rparr>)"
proof -
  from extract_entities_no_ident [of uuid "uuids_drawn srv" "content request"]
  obtain regex_entities where
    ex: "extract_entities uuid (uuids_drawn srv) (content request) = Inr regex_entities" by blast
  have rp: "list_all (\<lambda>e. positions e \<noteq> []) regex_entities"
    using extract_entities_fields [OF ex] by (simp add: list_all_iff)
  obtain ner_entities svc where
    ner: "(ner_entities, svc)
         = (if mode request = ADVANCED \<and> nlp srv \<noteq> None
            then ner_extract_entities uuid (uuids_drawn srv + length regex_entities)
                   (ner_service srv) (content request)
            else ([], ner_service srv))"
    by (metis surj_pair)
  have np: "list_all (\<lambda>e. positions e \<noteq> []) ner_entities"
  proof (cases "mode request = ADVANCED \<and> nlp srv \<noteq> None")
    case True
    with ner have "ner_entities = fst (ner_extract_entities uuid (uuids_drawn srv + length regex_entities)
                   (ner_service srv) (content request))"
      by (metis fst_conv)
    then show ?thesis by (simp only: ner_extract_entities_positions)
  next
    case False
    with ner have "(ner_entities, svc) = ([], ner_service srv)" by (simp only: if_False)
    then show ?thesis by simp
  qed
  have dd: "deduplicate (regex_entities @ ner_entities)
          = Inr (first_occurrences (regex_entities @ ner_entities))"
    using dedup_loop_keep_unseen [of "regex_entities @ ner_entities" "[]" "{}"] rp np
    by (simp add: deduplicate_def keep_unseen_first_occurrences)
  have "process_document uuid elapsed srv request
         = Inr (\<lparr>entities = first_occurrences (regex_entities @ ner_entities),
                 processing_time = elapsed,
                 mode_used = mode request,
                 total_occurrences = int (length (first_occurrences (regex_entities @ ner_entities))),
                 spacy_available = (nlp srv \<noteq> None),
                 ollama_available = False\<rparr>,
                srv\<lparr>ner_service := svc,
                    uuids_drawn := uuids_drawn srv + length regex_entities + length ner_entities\<rparr>)"
  proof (cases "mode request = ADVANCED \<and> nlp srv \<noteq> None")
    case True
    with ner have n: "ner_extract_entities uuid (uuids_drawn srv + length regex_entities)
                   (ner_service srv) (content request) = (ner_entities, svc)" by simp
    show ?thesis
      using True dd by (simp add: process_document_def ex n Let_def)
  next
    case False
    with ner have "(ner_entities, svc) = ([], ner_service srv)" by (simp only: if_False)
    then have n: "ner_entities = []" "svc = ner_service srv" by simp_all
    show ?thesis
      using False dd by (auto simp add: process_document_def ex n Let_def)
  qed
  with ex ner show ?thesis by blast
qed

section \<open>The SIRET examples\<close>

lemma valid_siret_matches:
  "finditer False (phone_patterns ! 0) ''73282932000074'' = []"
  "finditer False (phone_patterns ! 1) ''73282932000074'' = []"
  "finditer False email_pattern ''73282932000074'' = []"
  "finditer False siret_pattern ''73282932000074'' = [(0, 14)]"
  "finditer False ssn_pattern ''73282932000074'' = []"
  "map (\<lambda>p. finditer True p ''73282932000074'') address_patterns = [[], []]"
  "map (\<lambda>p. finditer True p ''73282932000074'') legal_patterns = [[], [], []]"
  by code_simp+

lemma invalid_siret_matches:
  "finditer False (phone_patterns ! 0) ''12345678901234'' = []"
  "finditer False (phone_patterns ! 1) ''12345678901234'' = []"
  "finditer False email_pattern ''12345678901234'' = []"
  "finditer False siret_pattern ''12345678901234'' = [(0, 14)]"
  "finditer False ssn_pattern ''12345678901234'' = []"
  "map (\<lambda>p. finditer True p ''12345678901234'') address_patterns = [[], []]"
  "map (\<lambda>p. finditer True p ''12345678901234'') legal_patterns = [[], [], []]"
  by code_simp+

lemma glued_siret_matches:
  "finditer False (phone_patterns ! 0) ''a73282932000074'' = []"
  "finditer False (phone_patterns ! 1) ''a73282932000074'' = []"
  "finditer False email_pattern ''a73282932000074'' = []"
  "finditer False siret_pattern ''a73282932000074'' = []"
  "finditer False ssn_pattern ''a73282932000074'' = []"
  "map (\<lambda>p. finditer True p ''a73282932000074'') address_patterns = [[], []]"
  "map (\<lambda>p. finditer True p ''a73282932000074'') legal_patterns = [[], [], []]"
  by code_simp+

lemma luhn_examples:
  "luhn_check ''73282932000074'' = Inr True" "luhn_check ''12345678901234'' = Inr False"
  by code_simp+

lemma fold_two_patterns:
  "length patterns = 2 \<Longrightarrow>
   fold (\<lambda>pattern. f (finditer ic pattern s)) patterns ents
     = f (finditer ic (patterns ! 1) s) (f (finditer ic (patterns ! 0) s) ents)"
  by (cases patterns; cases "tl patterns") auto

lemma extract_valid_siret:
  "extract_entities uuid k ''73282932000074''
     = Inr [\<lparr>ident = uuid k, etext = ''73282932000074'', etype = SIRET, source = REGEX,
              confidence = 1, replacement = siret_replacement,
              positions = [\<lparr>start = 0, end_pos = 14\<rparr>], selected = True\<rparr>]"
proof -
  have p: "length phone_patterns = 2" by (simp add: phone_patterns_def)
  show ?thesis
    unfolding extract_entities_def Let_def fold_two_patterns [OF p] valid_siret_matches
      fold_patterns [of _ True]
    by (simp add: append_matches_def new_entity_def group_def luhn_examples)
qed

lemma extract_invalid_siret: "extract_entities uuid k ''12345678901234'' = Inr []"
proof -
  have p: "length phone_patterns = 2" by (simp add: phone_patterns_def)
  show ?thesis
    unfolding extract_entities_def Let_def fold_two_patterns [OF p] invalid_siret_matches
      fold_patterns [of _ True]
    by (simp add: append_matches_def new_entity_def group_def luhn_examples)
qed

lemma extract_glued_siret: "extract_entities uuid k ''a73282932000074'' = Inr []"
proof -
  have p: "length phone_patterns = 2" by (simp add: phone_patterns_def)
  show ?thesis
    unfolding extract_entities_def Let_def fold_two_patterns [OF p] glued_siret_matches
      fold_patterns [of _ True]
    by (simp add: append_matches_def new_entity_def group_def)
qed

section \<open>Detection of SIRET numbers, modes and counters\<close>


lemma siret_example_delimited: "delimited_digits ''73282932000074'' 0 14"
  by code_simp

lemma siret_example_luhn: "luhn_check (take 14 (drop 0 ''73282932000074'')) = Inr True"
  by code_simp




text \<open>
  Claim C6. For every request, the entities returned in the LLM mode (\<open>OLLAMA\<close>) are
  those returned in standard mode on the same content: both are the deduplicated
  output of the pattern extractor alone, the NER adapter is not run, and
  \<open>OllamaService.extract_entities\<close> returns the empty list for every configuration.
\<close>

theorem ollama_mode_same_entities:
  "\<exists>regex_entities resp_standard resp_ollama srv'.
     extract_entities uuid (uuids_drawn srv) (content request) = Inr regex_entities
     \<and> process_document uuid elapsed srv (request\<lparr>mode := STANDARD\<rparr>) = Inr (resp_standard, srv')
     \<and> process_document uuid elapsed srv (request\<lparr>mode := OLLAMA\<rparr>) = Inr (resp_ollama, srv')
     \<and> entities resp_ollama = entities resp_standard
     \<and> deduplicate regex_entities = Inr (entities resp_standard)
     \<and> ner_service srv' = ner_service srv
     \<and> ollama_extract_entities config (content request) = []"
proof -
  from extract_entities_no_ident [of uuid "uuids_drawn srv" "content request"]
  obtain regex_entities where
    ex: "extract_entities uuid (uuids_drawn srv) (content request) = Inr regex_entities" by blast
  have "list_all (\<lambda>e. positions e \<noteq> []) regex_entities"
    using extract_entities_fields [OF ex] by (simp add: list_all_iff)
  then have dd: "deduplicate regex_entities = Inr (first_occurrences regex_entities)"
    using dedup_loop_keep_unseen [of regex_entities "[]" "{}"]
    by (simp add: deduplicate_def keep_unseen_first_occurrences)
  let ?srv' = "srv\<lparr>ner_service := ner_service srv,
                   uuids_drawn := uuids_drawn srv + length regex_entities\<rparr>"
  from process_document_result [of uuid srv "request\<lparr>mode := STANDARD\<rparr>" elapsed] ex
  obtain r1 where r1:
    "process_document uuid elapsed srv (request\<lparr>mode := STANDARD\<rparr>) = Inr (r1, ?srv')"
    "entities r1 = first_occurrences regex_entities"
    by auto
  from process_document_result [of uuid srv "request\<lparr>mode := OLLAMA\<rparr>" elapsed] ex
  obtain r2 where r2:
    "process_document uuid elapsed srv (request\<lparr>mode := OLLAMA\<rparr>) = Inr (r2, ?srv')"
    "entities r2 = first_occurrences regex_entities"
    by auto
  have "ner_service ?srv' = ner_service srv" by simp
  moreover have "ollama_extract_entities config (content request) = []"
    by (simp add: ollama_extract_entities_def)
  ultimately show ?thesis using ex r1 r2 dd by (metis (no_types, lifting))
qed

lemma example_no_pattern_matches:
  "finditer False (phone_patterns ! 0) ''Jean Dupont'' = []"
  "finditer False (phone_patterns ! 1) ''Jean Dupont'' = []"
  "finditer False email_pattern ''Jean Dupont'' = []"
  "finditer False siret_pattern ''Jean Dupont'' = []"
  "finditer False ssn_pattern ''Jean Dupont'' = []"
  "map (\<lambda>p. finditer True p ''Jean Dupont'') address_patterns = [[], []]"
  "map (\<lambda>p. finditer True p ''Jean Dupont'') legal_patterns = [[], [], []]"
  by code_simp+

lemma example_extract: "extract_entities uuid k ''Jean Dupont'' = Inr []"
proof -
  have p: "length phone_patterns = 2" by (simp add: phone_patterns_def)
  show ?thesis
    unfolding extract_entities_def Let_def fold_two_patterns [OF p] example_no_pattern_matches
      fold_patterns [of _ True]
    by (simp add: append_matches_def)
qed

lemma chr_letters: "chr 65 = CHR ''A''" "chr 66 = CHR ''B''"
  by code_simp+

text \<open>
  Claim C5 asks that two successive extraction calls on the same text give identical
  replacement strings. The counters are fields of the one \<open>ner_service\<close> of the
  process and are never reset: on a text with one person, the first call of the
  endpoint in advanced mode names the person \<open>Personne A\<close> and the second call, on the
  same text, \<open>Personne B\<close>.
\<close>

theorem ner_counters_drift:
  "\<exists>resp1 srv1 resp2 srv2.
     process_document example_uuid 0 (Server_init (Some example_nlp))
       \<lparr>content = ''Jean Dupont'', filename = ''a.txt'', mode = ADVANCED, ollama_config = None\<rparr>
       = Inr (resp1, srv1)
     \<and> process_document example_uuid 0 srv1
       \<lparr>content = ''Jean Dupont'', filename = ''a.txt'', mode = ADVANCED, ollama_config = None\<rparr>
       = Inr (resp2, srv2)
     \<and> map replacement (entities resp1) = [''Personne A'']
     \<and> map replacement (entities resp2) = [''Personne B'']
     \<and> person_counter (ner_service srv2) = 3"
  by (simp add: process_document_def example_extract Server_init_def NERService_init_def
        ner_extract_entities_def example_nlp_def new_entity_def deduplicate_def dedup_key_def
        chr_letters)

section \<open>Deduplication in the endpoint\<close>




end
